theory Spec2Isabelle
  imports Main
begin

section \<open>ReactiveContext: values, raw objects and the context state\<close>

text \<open>
  The embedding follows the class \<open>ReactiveContext\<close>: its three private fields
  (\<open>#listeners\<close>, \<open>#proxy_cache\<close>, and \<open>#fields\<close> as \<open>fields_tab\<close>), the method \<open>createReactiveFields\<close>,
  the private methods \<open>#createReactive\<close> (with the \<open>get\<close> and \<open>set\<close> traps of the proxy
  handler) and \<open>#emit\<close>, and the bus methods \<open>on\<close>, \<open>off\<close>, \<open>once\<close>,
  \<open>removeAllListeners\<close>, \<open>getListenerCount\<close>, \<open>hasListeners\<close>.

  Scope of the embedding. Raw targets are plain, extensible data objects and arrays kept in
  a store indexed by address; a raw object is its table of own data properties (an array
  keeps \<open>length\<close> and its elements in that table, and carries the flag \<open>is_array\<close>).
  Values stored in the tree are primitives, function values and references to raw objects; a
  wrapper stored back into the tree, accessor properties, frozen objects and inherited
  (prototype) properties are outside the embedding. What \<open>Array.prototype[m].apply\<close> does
  to the store is a parameter of the model, since it is the platform's code.
  \<open>raw_set\<close> is the assignment \<open>obj[prop] = v\<close> on a raw object: on an array an
  index write grows \<open>length\<close>, a write to \<open>length\<close> truncates the array, and an
  invalid length throws a RangeError. Numbers are integers; the conversion to a number of a
  string that is not a run of decimal digits, or of an object, is not modelled
  (\<open>Unmodelled\<close>).
  A listener is a function identity together with a body written in a small command
  language: it may unsubscribe listeners and it may throw; it does not touch the tree.
  \<open>Date.now()\<close> reads a clock that is given as a function of the number of readings so
  far. The trace records, in order, the calls of \<open>#emit\<close>, the calls of listeners, and
  the output of \<open>console.warn\<close> and \<open>console.error\<close>.
\<close>

datatype key = KStr string | KSym nat

datatype val = VUndef | VNull | VBool bool | VNum int | VStr string | VFun string | VObj nat

record cell =
  is_array :: bool
  props :: "key \<rightharpoonup> val"

text \<open>What a caller of the wrapped tree holds: a raw value, a reactive node (a proxy,
  named by its identity) or the callable that the \<open>get\<close> trap returns for a mutating
  array method (a closure over \<open>obj\<close>, \<open>prop\<close> and \<open>namespace\<close>).\<close>

datatype uval = UVal val | UNode nat | UCallable nat string string

datatype payload =
    PRead string val nat
  | PChange string uval uval nat
  | PMut string "val list" val nat

datatype fnref = Fn nat | Wrapper nat

datatype stmt = SOff string fnref | SThrow

datatype effect =
    Emit string payload
  | Call fnref payload
  | Warn bool string string
  | ConsoleError string

datatype error = TypeError string | RangeError string | Unmodelled string | NoSuchNode

record ctx =
  listeners :: "string \<rightharpoonup> fnref list"
  proxy_cache :: "nat \<rightharpoonup> nat"
  fields_tab :: "string \<rightharpoonup> uval"
  own_props :: "string set"
  heap :: "nat \<Rightarrow> cell"
  proxies :: "nat \<rightharpoonup> nat \<times> string"
  next_proxy :: nat
  bodies :: "nat \<Rightarrow> stmt list"
  wrappers :: "nat \<rightharpoonup> string \<times> nat"
  next_wrapper :: nat
  clock :: "nat \<Rightarrow> nat"
  ticks :: nat
  trace :: "effect list"

type_synonym 'a outcome = "(error + 'a) \<times> ctx"

type_synonym array_proto = "string \<Rightarrow> (nat \<Rightarrow> cell) \<Rightarrow> nat \<Rightarrow> val list \<Rightarrow> (error + val) \<times> (nat \<Rightarrow> cell)"

definition ARRAY_MUTATORS :: "string list" where
  "ARRAY_MUTATORS =
     [''push'', ''pop'', ''shift'', ''unshift'',
      ''splice'', ''sort'', ''reverse'', ''fill'', ''copyWithin'']"

text \<open>\<open>new ReactiveContext()\<close>: empty listener table, empty proxy cache, no fields. The
  store of raw objects, the listener bodies, the clock read by \<open>Date.now()\<close> and the own
  properties a subclass constructor has already defined are given.\<close>

definition new_context :: "(nat \<Rightarrow> cell) \<Rightarrow> (nat \<Rightarrow> stmt list) \<Rightarrow> (nat \<Rightarrow> nat) \<Rightarrow> string set \<Rightarrow> ctx" where
  "new_context h b c own =
     \<lparr> listeners = Map.empty, proxy_cache = Map.empty, fields_tab = Map.empty, own_props = own,
       heap = h, proxies = Map.empty, next_proxy = 0, bodies = b, wrappers = Map.empty,
       next_wrapper = 0, clock = c, ticks = 0, trace = [] \<rparr>"

subsection \<open>The platform: property access on raw objects, template literals, the clock\<close>

text \<open>\<open>obj[prop]\<close> on a raw object: the own data property, \<open>undefined\<close> when absent.\<close>

definition raw_get :: "cell \<Rightarrow> key \<Rightarrow> val" where
  "raw_get c k = (case props c k of None \<Rightarrow> VUndef | Some v \<Rightarrow> v)"

text \<open>Decimal numerals: \<open>dec\<close> is \<open>ToString\<close> of an integer that is not negative,
  \<open>array_index\<close> reads a key as an array index (a canonical numeral below
  \<open>2^32 - 1\<close>).\<close>

definition digit_char :: "nat \<Rightarrow> char" where
  "digit_char d = ''0123456789'' ! d"

function dec :: "int \<Rightarrow> string" where
  "dec n =
     (if n < 10 then [digit_char (nat n)]
      else dec (n div 10) @ [digit_char (nat (n mod 10))])"
  by pat_completeness auto
termination
  by (relation "measure nat") auto

declare dec.simps [simp del]

definition is_digit :: "char \<Rightarrow> bool" where
  "is_digit c = (48 \<le> (of_char c :: nat) \<and> (of_char c :: nat) \<le> 57)"

definition digits_value :: "string \<Rightarrow> int" where
  "digits_value s = foldl (\<lambda>a c. 10 * a + (int (of_char c) - 48)) 0 s"

definition array_index :: "string \<Rightarrow> int option" where
  "array_index s =
     (if s \<noteq> [] \<and> list_all is_digit s \<and> (s = ''0'' \<or> hd s \<noteq> CHR ''0'') \<and>
         digits_value s < 4294967295
      then Some (digits_value s) else None)"

text \<open>\<open>obj.length\<close> of an array, as a number.\<close>

definition array_length :: "cell \<Rightarrow> int" where
  "array_length c = (case raw_get c (KStr ''length'') of VNum n \<Rightarrow> n | _ \<Rightarrow> 0)"

text \<open>The value assigned to the \<open>length\<close> of an array must convert to an integer in
  \<open>0 .. 2^32 - 1\<close>; otherwise the assignment throws a RangeError. \<open>undefined\<close> and a
  function convert to NaN.\<close>

fun to_length :: "val \<Rightarrow> error + int" where
  "to_length (VNum n) =
     (if 0 \<le> n \<and> n < 4294967296 then Inr n else Inl (RangeError ''Invalid array length''))"
| "to_length (VBool b) = Inr (if b then 1 else 0)"
| "to_length VNull = Inr 0"
| "to_length VUndef = Inl (RangeError ''Invalid array length'')"
| "to_length (VFun f) = Inl (RangeError ''Invalid array length'')"
| "to_length (VStr s) =
     (if list_all is_digit s
      then (if digits_value s < 4294967296 then Inr (digits_value s)
            else Inl (RangeError ''Invalid array length''))
      else Inl (Unmodelled ''ToNumber of a string''))"
| "to_length (VObj a) = Inl (Unmodelled ''ToNumber of an object'')"

text \<open>Assignment to a key other than the \<open>length\<close> of an array: the own property is
  created or updated; on an array an index at or beyond \<open>length\<close> makes \<open>length\<close>
  the index plus one.\<close>

definition assign_own :: "cell \<Rightarrow> key \<Rightarrow> val \<Rightarrow> cell" where
  "assign_own c k v =
     (let c1 = c\<lparr>props := (props c)(k \<mapsto> v)\<rparr>
      in if is_array c
         then (case k of
                 KStr s \<Rightarrow>
                   (case array_index s of
                      Some i \<Rightarrow>
                        if array_length c \<le> i
                        then c1\<lparr>props := (props c1)(KStr ''length'' \<mapsto> VNum (i + 1))\<rparr>
                        else c1
                    | None \<Rightarrow> c1)
               | KSym n \<Rightarrow> c1)
         else c1)"

text \<open>Setting the \<open>length\<close> of an array to \<open>n\<close>: the elements at \<open>n\<close> and beyond
  are deleted.\<close>

definition set_length :: "cell \<Rightarrow> int \<Rightarrow> cell" where
  "set_length c n =
     c\<lparr>props :=
         (\<lambda>k. case k of
                KStr s \<Rightarrow> (case array_index s of
                             Some i \<Rightarrow> if n \<le> i then None else props c k
                           | None \<Rightarrow> props c k)
              | KSym m \<Rightarrow> props c k)
         (KStr ''length'' \<mapsto> VNum n)\<rparr>"

text \<open>\<open>obj[prop] = v\<close> on a raw object.\<close>

definition raw_set :: "cell \<Rightarrow> key \<Rightarrow> val \<Rightarrow> error + cell" where
  "raw_set c k v =
     (if is_array c \<and> k = KStr ''length''
      then (case to_length v of
              Inl err \<Rightarrow> Inl err
            | Inr n \<Rightarrow> Inr (set_length c n))
      else Inr (assign_own c k v))"

definition raw_delete :: "cell \<Rightarrow> key \<Rightarrow> cell" where
  "raw_delete c k = c\<lparr>props := (props c)(k := None)\<rparr>"

text \<open>\<open>v !== null && v !== undefined && typeof v === 'object'\<close>.\<close>

fun is_object :: "val \<Rightarrow> bool" where
  "is_object (VObj a) = True"
| "is_object v = False"

fun is_object_u :: "uval \<Rightarrow> bool" where
  "is_object_u (UVal v) = is_object v"
| "is_object_u (UNode p) = True"
| "is_object_u (UCallable obj m ns) = False"

text \<open>A substitution \<open>${prop}\<close> of a template literal converts the key to a string; for a
  symbol the conversion throws a TypeError.\<close>

fun to_string :: "key \<Rightarrow> error + string" where
  "to_string (KStr s) = Inr s"
| "to_string (KSym n) = Inl (TypeError ''Cannot convert a Symbol value to a string'')"

text \<open>\<open>ARRAY_MUTATORS.includes(prop)\<close>: strict equality, so no symbol is included.\<close>

fun includes_key :: "string list \<Rightarrow> key \<Rightarrow> bool" where
  "includes_key xs (KStr s) = (s \<in> set xs)"
| "includes_key xs (KSym n) = False"

text \<open>\<open>typeof prop === 'string' && !prop.startsWith('_')\<close>.\<close>

fun observable :: "key \<Rightarrow> bool" where
  "observable (KStr s) = (case s of [] \<Rightarrow> True | c # cs \<Rightarrow> c \<noteq> CHR ''_'')"
| "observable (KSym n) = False"

definition Date_now :: "ctx \<Rightarrow> nat \<times> ctx" where
  "Date_now st = (clock st (ticks st), st\<lparr>ticks := Suc (ticks st)\<rparr>)"

text \<open>\<open>Array.isArray(v) ? 'array' : 'object'\<close>, for a raw reference and for what a field
  holds (\<open>Array.isArray\<close> looks through a proxy).\<close>

definition type_name :: "ctx \<Rightarrow> val \<Rightarrow> string" where
  "type_name st v =
     (case v of VObj a \<Rightarrow> if is_array (heap st a) then ''array'' else ''object''
      | _ \<Rightarrow> ''object'')"

definition type_name_u :: "ctx \<Rightarrow> uval \<Rightarrow> string" where
  "type_name_u st u =
     (case u of
        UNode p \<Rightarrow> (case proxies st p of
                      Some (a, ns) \<Rightarrow> if is_array (heap st a) then ''array'' else ''object''
                    | None \<Rightarrow> ''object'')
      | UVal v \<Rightarrow> type_name st v
      | UCallable obj m ns \<Rightarrow> ''object'')"

subsection \<open>The event bus\<close>

text \<open>\<open>on(event, callback)\<close>. The closure it returns, \<open>() => this.off(event, callback)\<close>,
  is the pair \<open>(event, callback)\<close>; \<open>unsubscribe\<close> calls it.\<close>

definition on :: "ctx \<Rightarrow> string \<Rightarrow> fnref \<Rightarrow> (string \<times> fnref) \<times> ctx" where
  "on st event callback =
     ((event, callback),
      st\<lparr>listeners := (listeners st)
           (event \<mapsto> (case listeners st event of None \<Rightarrow> [] | Some l \<Rightarrow> l) @ [callback])\<rparr>)"

text \<open>\<open>off(event, callback)\<close>: \<open>indexOf\<close> finds the first identical entry and
  \<open>splice(index, 1)\<close> removes it from the array in place.\<close>

definition off :: "ctx \<Rightarrow> string \<Rightarrow> fnref \<Rightarrow> ctx" where
  "off st event callback =
     (case listeners st event of
        None \<Rightarrow> st
      | Some l \<Rightarrow> st\<lparr>listeners := (listeners st)(event \<mapsto> remove1 callback l)\<rparr>)"

definition unsubscribe :: "ctx \<Rightarrow> string \<times> fnref \<Rightarrow> ctx" where
  "unsubscribe st u = off st (fst u) (snd u)"

text \<open>\<open>once(event, callback)\<close>: a fresh function \<open>wrapper\<close> closing over \<open>event\<close> and
  \<open>callback\<close> is registered with \<open>on\<close>.\<close>

definition once :: "ctx \<Rightarrow> string \<Rightarrow> nat \<Rightarrow> (string \<times> fnref) \<times> ctx" where
  "once st event callback =
     (let k = next_wrapper st
      in on (st\<lparr>wrappers := (wrappers st)(k \<mapsto> (event, callback)), next_wrapper := Suc k\<rparr>)
            event (Wrapper k))"

text \<open>\<open>removeAllListeners(event = null)\<close>: the test \<open>if (event)\<close> is false for the empty
  string as well.\<close>

definition removeAllListeners :: "ctx \<Rightarrow> string option \<Rightarrow> ctx" where
  "removeAllListeners st event =
     (case event of
        Some e \<Rightarrow> if e \<noteq> [] then st\<lparr>listeners := (listeners st)(e \<mapsto> [])\<rparr>
                  else st\<lparr>listeners := Map.empty\<rparr>
      | None \<Rightarrow> st\<lparr>listeners := Map.empty\<rparr>)"

definition getListenerCount :: "ctx \<Rightarrow> string \<Rightarrow> nat" where
  "getListenerCount st event = (case listeners st event of None \<Rightarrow> 0 | Some l \<Rightarrow> length l)"

definition hasListeners :: "ctx \<Rightarrow> string \<Rightarrow> bool" where
  "hasListeners st event = (getListenerCount st event > 0)"

text \<open>Running the body of a user function: \<open>True\<close> when it threw.\<close>

fun run_stmts :: "ctx \<Rightarrow> stmt list \<Rightarrow> bool \<times> ctx" where
  "run_stmts st [] = (False, st)"
| "run_stmts st (SThrow # ss) = (True, st)"
| "run_stmts st (SOff e f # ss) = run_stmts (off st e f) ss"

definition call_user :: "ctx \<Rightarrow> nat \<Rightarrow> payload \<Rightarrow> bool \<times> ctx" where
  "call_user st c data = run_stmts (st\<lparr>trace := trace st @ [Call (Fn c) data]\<rparr>) (bodies st c)"

text \<open>Calling a registered entry with \<open>(data, this)\<close>. The wrapper of \<open>once\<close> is
  \<open>(data, ctx) => { callback(data, ctx); this.off(event, wrapper) }\<close>: when the callback
  throws, the call of \<open>off\<close> is not reached.\<close>

fun call_fn :: "ctx \<Rightarrow> fnref \<Rightarrow> payload \<Rightarrow> bool \<times> ctx" where
  "call_fn st (Fn c) data = call_user st c data"
| "call_fn st (Wrapper k) data =
     (case wrappers st k of
        None \<Rightarrow> (False, st)
      | Some (event, callback) \<Rightarrow>
          (case call_user (st\<lparr>trace := trace st @ [Call (Wrapper k) data]\<rparr>) callback data of
             (True, st1) \<Rightarrow> (True, st1)
           | (False, st1) \<Rightarrow> (False, off st1 event (Wrapper k))))"

text \<open>One guarded invocation of the loop body of \<open>#emit\<close>:
  \<open>try { callback(data, this) } catch (error) { console.error(...) }\<close>.\<close>

definition guarded_call :: "ctx \<Rightarrow> string \<Rightarrow> fnref \<Rightarrow> payload \<Rightarrow> ctx" where
  "guarded_call st event callback data =
     (case call_fn st callback data of
        (True, st1) \<Rightarrow> st1\<lparr>trace := trace st1 @ [ConsoleError event]\<rparr>
      | (False, st1) \<Rightarrow> st1)"

definition listeners_of :: "ctx \<Rightarrow> string \<Rightarrow> fnref list" where
  "listeners_of st event = (case listeners st event of None \<Rightarrow> [] | Some l \<Rightarrow> l)"

lemma off_length: "length (listeners_of (off st e f) ev) \<le> length (listeners_of st ev)"
  by (auto simp: off_def listeners_of_def length_remove1 split: option.splits)

lemma run_stmts_length:
  "length (listeners_of (snd (run_stmts st ss)) ev) \<le> length (listeners_of st ev)"
proof (induction st ss rule: run_stmts.induct)
  case (3 st e f ss)
  then show ?case using off_length [of st e f ev] by simp
qed simp_all

lemma call_user_length:
  "length (listeners_of (snd (call_user st c d)) ev) \<le> length (listeners_of st ev)"
  using run_stmts_length [of "st\<lparr>trace := trace st @ [Call (Fn c) d]\<rparr>" "bodies st c" ev]
  by (simp add: call_user_def listeners_of_def)

lemma call_fn_length:
  "length (listeners_of (snd (call_fn st f d)) ev) \<le> length (listeners_of st ev)"
proof (cases f)
  case (Fn c)
  then show ?thesis by (simp add: call_user_length)
next
  case (Wrapper k)
  show ?thesis
  proof (cases "wrappers st k")
    case None
    with Wrapper show ?thesis by simp
  next
    case (Some ec)
    obtain e c where ec: "ec = (e, c)" by (cases ec)
    let ?s = "st\<lparr>trace := trace st @ [Call (Wrapper k) d]\<rparr>"
    obtain b st1 where r: "call_user ?s c d = (b, st1)" by (cases "call_user ?s c d")
    have l1: "length (listeners_of st1 ev) \<le> length (listeners_of st ev)"
      using call_user_length [of ?s c d ev] r by (simp add: listeners_of_def)
    show ?thesis
      using Wrapper Some ec r l1 off_length [of st1 e "Wrapper k" ev]
      by (cases b) auto
  qed
qed

lemma guarded_call_length:
  "length (listeners_of (guarded_call st e f d) ev) \<le> length (listeners_of st ev)"
proof -
  obtain b st1 where r: "call_fn st f d = (b, st1)" by (cases "call_fn st f d")
  have "length (listeners_of st1 ev) \<le> length (listeners_of st ev)"
    using call_fn_length [of st f d ev] r by simp
  then show ?thesis
    using r by (cases b) (simp_all add: guarded_call_def listeners_of_def)
qed

text \<open>The loop \<open>for (const callback of this.#listeners[event])\<close>: the array iterator
  keeps an index into the live array and re-reads its length at every step, so an entry
  spliced out by a listener shifts the entries behind it under the index. (A listener body
  of the model never replaces the array of an event, so the table read at each step holds
  the array the loop started on.)\<close>

function dispatch :: "ctx \<Rightarrow> string \<Rightarrow> payload \<Rightarrow> nat \<Rightarrow> ctx" where
  "dispatch st event data i =
     (if i < length (listeners_of st event)
      then dispatch (guarded_call st event (listeners_of st event ! i) data) event data (Suc i)
      else st)"
  by pat_completeness auto
termination
proof (relation "measure (\<lambda>(st, event, data, i). length (listeners_of st event) - i)")
  show "wf (measure (\<lambda>(st, event, data, i). length (listeners_of st event) - i))" by simp
next
  fix st :: ctx and event data i
  assume a: "i < length (listeners_of st event)"
  have "length (listeners_of (guarded_call st event (listeners_of st event ! i) data) event)
          \<le> length (listeners_of st event)"
    by (rule guarded_call_length)
  with a show "((guarded_call st event (listeners_of st event ! i) data, event, data, Suc i),
                (st, event, data, i))
               \<in> measure (\<lambda>(st, event, data, i). length (listeners_of st event) - i)"
    by simp
qed

declare dispatch.simps [simp del]

text \<open>\<open>#emit(event, data)\<close>. The call itself is recorded in the trace.\<close>

definition emit :: "ctx \<Rightarrow> string \<Rightarrow> payload \<Rightarrow> ctx" where
  "emit st event data =
     (let st0 = st\<lparr>trace := trace st @ [Emit event data]\<rparr>
      in case listeners st0 event of
           None \<Rightarrow> st0
         | Some l \<Rightarrow> dispatch st0 event data 0)"

subsection \<open>Reactive nodes: \<open>#createReactive\<close> and the traps of its proxy\<close>

text \<open>\<open>#createReactive(target, namespace)\<close>: a primitive (or a function) comes back
  unchanged; a cached target yields its cached proxy; otherwise \<open>new Proxy\<close> makes a
  node with a fresh identity, whose handler closes over \<open>namespace\<close>, and the cache
  records it.\<close>

definition createReactive :: "ctx \<Rightarrow> val \<Rightarrow> string \<Rightarrow> uval \<times> ctx" where
  "createReactive st target namespace =
     (case target of
        VObj a \<Rightarrow>
          (case proxy_cache st a of
             Some p \<Rightarrow> (UNode p, st)
           | None \<Rightarrow>
               (let p = next_proxy st
                in (UNode p,
                    st\<lparr>proxies := (proxies st)(p \<mapsto> (a, namespace)),
                       proxy_cache := (proxy_cache st)(a \<mapsto> p),
                       next_proxy := Suc p\<rparr>)))
      | _ \<Rightarrow> (UVal target, st))"

text \<open>The \<open>get\<close> trap, \<open>get: (obj, prop) => ...\<close>, of a node over \<open>obj\<close> with
  \<open>namespace\<close>. The name of the nested namespace is a template literal, evaluated before
  \<open>#createReactive\<close> is called.\<close>

definition get_trap :: "ctx \<Rightarrow> nat \<Rightarrow> string \<Rightarrow> key \<Rightarrow> uval outcome" where
  "get_trap st obj namespace prop =
     (let value = raw_get (heap st obj) prop
      in if is_array (heap st obj) \<and> includes_key ARRAY_MUTATORS prop
         then (Inr (UCallable obj (case prop of KStr s \<Rightarrow> s | KSym n \<Rightarrow> []) namespace), st)
         else if is_object value
         then (case to_string prop of
                 Inl err \<Rightarrow> (Inl err, st)
               | Inr s \<Rightarrow>
                   (case createReactive st value (namespace @ ''.'' @ s) of
                      (node, st1) \<Rightarrow> (Inr node, st1)))
         else (case prop of
                 KStr s \<Rightarrow>
                   if observable prop
                   then (case Date_now st of (t1, st1) \<Rightarrow>
                         (case Date_now (emit st1 (namespace @ '':'' @ s @ '':read'')
                                           (PRead s value t1)) of (t2, st2) \<Rightarrow>
                            (Inr (UVal value),
                             emit st2 (namespace @ '':read'') (PRead s value t2))))
                   else (Inr (UVal value), st)
               | KSym n \<Rightarrow> (Inr (UVal value), st)))"

text \<open>The callable returned for a mutating array method:
  \<open>(...args) => { const result = Array.prototype[prop].apply(obj, args); this.#emit(...);
  return result }\<close>. \<open>AP\<close> is \<open>Array.prototype[prop].apply\<close>, which returns or
  throws and leaves a store either way; when it throws, the exception leaves the callable
  and nothing is emitted.\<close>

definition call_mutator :: "array_proto \<Rightarrow> ctx \<Rightarrow> nat \<Rightarrow> string \<Rightarrow> string \<Rightarrow> val list \<Rightarrow> val outcome" where
  "call_mutator AP st obj prop namespace args =
     (case AP prop (heap st) obj args of
        (Inl err, h) \<Rightarrow> (Inl err, st\<lparr>heap := h\<rparr>)
      | (Inr result, h) \<Rightarrow>
          (case Date_now (st\<lparr>heap := h\<rparr>) of (t, st1) \<Rightarrow>
             (Inr result,
              emit st1 (namespace @ '':change'')
                (PMut prop args (raw_get (h obj) (KStr ''length'')) t))))"

text \<open>The warning of the \<open>set\<close> trap. Its message is a template literal that holds
  \<open>${prop}\<close>.\<close>

definition warn_reassign :: "ctx \<Rightarrow> val \<Rightarrow> key \<Rightarrow> error + ctx" where
  "warn_reassign st old_value prop =
     (if is_object old_value
      then (case to_string prop of
              Inl err \<Rightarrow> Inl err
            | Inr s \<Rightarrow> Inr (st\<lparr>trace := trace st @ [Warn False (type_name st old_value) s]\<rparr>))
      else Inr st)"

text \<open>The \<open>set\<close> trap, \<open>set: (obj, prop, new_value) => ...\<close>; \<open>Inr True\<close> is its
  \<open>return true\<close>. An exception of the assignment \<open>obj[prop] = new_value\<close> leaves the
  trap before anything is emitted.\<close>

definition set_trap :: "ctx \<Rightarrow> nat \<Rightarrow> string \<Rightarrow> key \<Rightarrow> val \<Rightarrow> bool outcome" where
  "set_trap st obj namespace prop new_value =
     (let old_value = raw_get (heap st obj) prop
      in case warn_reassign st old_value prop of
           Inl err \<Rightarrow> (Inl err, st)
         | Inr st1 \<Rightarrow>
             (case raw_set (heap st1 obj) prop new_value of
                Inl err \<Rightarrow> (Inl err, st1)
              | Inr c \<Rightarrow>
                  (let st2 = st1\<lparr>heap := (heap st1)(obj := c)\<rparr>
                   in case to_string prop of
                        Inl err \<Rightarrow> (Inl err, st2)
                      | Inr s \<Rightarrow>
                          (case Date_now st2 of (t1, st3) \<Rightarrow>
                           (case Date_now (emit st3 (namespace @ '':'' @ s @ '':change'')
                                             (PChange s (UVal old_value) (UVal new_value) t1)) of
                              (t2, st4) \<Rightarrow>
                                (Inr True,
                                 emit st4 (namespace @ '':change'')
                                   (PChange s (UVal old_value) (UVal new_value) t2)))))))"

text \<open>Operations on a node through its identity. The handler defines no
  \<open>deleteProperty\<close> trap, so \<open>delete node[prop]\<close> is the platform's deletion on the raw
  target. \<open>NoSuchNode\<close> is the model's answer for an identity that no wrap returned.\<close>

definition proxy_get :: "ctx \<Rightarrow> nat \<Rightarrow> key \<Rightarrow> uval outcome" where
  "proxy_get st p prop =
     (case proxies st p of
        None \<Rightarrow> (Inl NoSuchNode, st)
      | Some (obj, namespace) \<Rightarrow> get_trap st obj namespace prop)"

definition proxy_set :: "ctx \<Rightarrow> nat \<Rightarrow> key \<Rightarrow> val \<Rightarrow> bool outcome" where
  "proxy_set st p prop new_value =
     (case proxies st p of
        None \<Rightarrow> (Inl NoSuchNode, st)
      | Some (obj, namespace) \<Rightarrow> set_trap st obj namespace prop new_value)"

definition proxy_delete :: "ctx \<Rightarrow> nat \<Rightarrow> key \<Rightarrow> bool outcome" where
  "proxy_delete st p prop =
     (case proxies st p of
        None \<Rightarrow> (Inl NoSuchNode, st)
      | Some (obj, namespace) \<Rightarrow>
          (Inr True, st\<lparr>heap := (heap st)(obj := raw_delete (heap st obj) prop)\<rparr>))"

subsection \<open>Fields: \<open>createReactiveFields\<close> and the accessors it installs\<close>

text \<open>The argument is \<open>Object.entries(definitions)\<close>, in its order. The TypeError leaves
  the loop at once; what earlier iterations did to the instance stays.\<close>

definition field_exists :: "string \<Rightarrow> error" where
  "field_exists field_name =
     TypeError (''Field '' @ [CHR 0x27] @ field_name @ [CHR 0x27] @ '' already exists'')"

fun createReactiveFields :: "ctx \<Rightarrow> (string \<times> val) list \<Rightarrow> unit outcome" where
  "createReactiveFields st [] = (Inr (), st)"
| "createReactiveFields st ((field_name, initial_value) # rest) =
     (if field_name \<in> own_props st
      then (Inl (field_exists field_name), st)
      else (case createReactive st initial_value field_name of
              (node, st1) \<Rightarrow>
                createReactiveFields
                  (st1\<lparr>fields_tab := (fields_tab st1)(field_name \<mapsto> node),
                       own_props := insert field_name (own_props st1)\<rparr>)
                  rest))"

text \<open>The getter \<open>get: () => this.#fields[field_name]\<close>: no event.\<close>

definition field_get :: "ctx \<Rightarrow> string \<Rightarrow> uval" where
  "field_get st field_name =
     (case fields_tab st field_name of None \<Rightarrow> UVal VUndef | Some u \<Rightarrow> u)"

text \<open>The setter \<open>set: (new_value) => ...\<close> of a declared field. (Assigning to a name
  that is not declared makes an ordinary own property of the instance.)\<close>

definition field_set :: "ctx \<Rightarrow> string \<Rightarrow> val \<Rightarrow> ctx" where
  "field_set st field_name new_value =
     (case fields_tab st field_name of
        None \<Rightarrow> st\<lparr>own_props := insert field_name (own_props st)\<rparr>
      | Some old_value \<Rightarrow>
          (let st1 = (if is_object_u old_value
                      then st\<lparr>trace := trace st @ [Warn True (type_name_u st old_value) field_name]\<rparr>
                      else st)
           in case createReactive st1 new_value field_name of
                (node, st2) \<Rightarrow>
                  (case Date_now (st2\<lparr>fields_tab := (fields_tab st2)(field_name \<mapsto> node)\<rparr>) of
                     (t, st3) \<Rightarrow>
                       emit st3 (field_name @ '':change'')
                         (PChange field_name old_value (UVal new_value) t))))"

text \<open>The events of a trace: the calls of \<open>#emit\<close>, in order, with their payloads.\<close>

fun emitted :: "effect list \<Rightarrow> (string \<times> payload) list" where
  "emitted [] = []"
| "emitted (Emit e d # xs) = (e, d) # emitted xs"
| "emitted (x # xs) = emitted xs"

fun calls :: "effect list \<Rightarrow> fnref list" where
  "calls [] = []"
| "calls (Call f d # xs) = f # calls xs"
| "calls (x # xs) = calls xs"

definition events_since :: "ctx \<Rightarrow> ctx \<Rightarrow> (string \<times> payload) list" where
  "events_since st st' = drop (length (emitted (trace st))) (emitted (trace st'))"

text \<open>\<open>bus_only st st'\<close>: from \<open>st\<close> to \<open>st'\<close> only the listener table, the wrappers
  and the part of the trace that is not a call of \<open>#emit\<close> may have changed.\<close>

definition bus_only :: "ctx \<Rightarrow> ctx \<Rightarrow> bool" where
  "bus_only st st' =
     (heap st' = heap st \<and> proxies st' = proxies st \<and> proxy_cache st' = proxy_cache st \<and>
      fields_tab st' = fields_tab st \<and> own_props st' = own_props st \<and>
      next_proxy st' = next_proxy st \<and> bodies st' = bodies st \<and> clock st' = clock st \<and>
      ticks st' = ticks st \<and> emitted (trace st') = emitted (trace st))"

subsection \<open>Runs of the public operations\<close>

text \<open>What code outside the class can do to an instance: declare fields, assign to a
  field, read, write and delete through a node, call a callable obtained for a mutating
  array method, use the bus, and write to a raw object it holds directly.\<close>

datatype action =
    DeclareFields "(string \<times> val) list"
  | WriteField string val
  | NodeGet nat key
  | NodeSet nat key val
  | NodeDelete nat key
  | ArrayMethod nat string string "val list"
  | Subscribe string fnref
  | Unsubscribe string fnref
  | SubscribeOnce string nat
  | Clear "string option"
  | RawWrite "nat \<Rightarrow> cell"

fun perform :: "array_proto \<Rightarrow> ctx \<Rightarrow> action \<Rightarrow> ctx" where
  "perform AP st (DeclareFields defs) = snd (createReactiveFields st defs)"
| "perform AP st (WriteField field_name v) = field_set st field_name v"
| "perform AP st (NodeGet p k) = snd (proxy_get st p k)"
| "perform AP st (NodeSet p k v) = snd (proxy_set st p k v)"
| "perform AP st (NodeDelete p k) = snd (proxy_delete st p k)"
| "perform AP st (ArrayMethod obj m ns args) = snd (call_mutator AP st obj m ns args)"
| "perform AP st (Subscribe e f) = snd (on st e f)"
| "perform AP st (Unsubscribe e f) = off st e f"
| "perform AP st (SubscribeOnce e c) = snd (once st e c)"
| "perform AP st (Clear ev) = removeAllListeners st ev"
| "perform AP st (RawWrite h) = st\<lparr>heap := h\<rparr>"

definition run :: "array_proto \<Rightarrow> ctx \<Rightarrow> action list \<Rightarrow> ctx" where
  "run AP st acts = foldl (perform AP) st acts"

text \<open>The proxy cache and the table of nodes agree: a cached target has the node the cache
  names, and every node is the cached node of its target, made before \<open>next_proxy\<close>.\<close>

definition cache_ok :: "ctx \<Rightarrow> bool" where
  "cache_ok st =
     ((\<forall>a p. proxy_cache st a = Some p \<longrightarrow> (\<exists>ns. proxies st p = Some (a, ns))) \<and>
      (\<forall>p a ns. proxies st p = Some (a, ns) \<longrightarrow> proxy_cache st a = Some p \<and> p < next_proxy st))"

definition extends :: "ctx \<Rightarrow> ctx \<Rightarrow> bool" where
  "extends st st' =
     (cache_ok st \<longrightarrow>
        cache_ok st' \<and>
        (\<forall>a p. proxy_cache st a = Some p \<longrightarrow> proxy_cache st' a = Some p) \<and>
        (\<forall>p x. proxies st p = Some x \<longrightarrow> proxies st' p = Some x))"

definition same_cache :: "ctx \<Rightarrow> ctx \<Rightarrow> bool" where
  "same_cache st st' =
     (proxy_cache st' = proxy_cache st \<and> proxies st' = proxies st \<and>
      next_proxy st' = next_proxy st)"

subsection \<open>A platform fragment: \<open>Array.prototype.push\<close>\<close>

text \<open>\<open>push\<close> reads \<open>length\<close>, assigns each argument at the key that is the decimal
  numeral of the running length, and then assigns the new length to \<open>length\<close>, which
  throws a RangeError when it exceeds \<open>2^32 - 1\<close> (the elements assigned before stay);
  the new length is returned. The fragment implements no other method.\<close>

fun push_elements :: "cell \<Rightarrow> int \<Rightarrow> val list \<Rightarrow> cell" where
  "push_elements c len [] = c"
| "push_elements c len (v # vs) =
     push_elements (assign_own c (KStr (dec len)) v) (len + 1) vs"

definition array_push :: "cell \<Rightarrow> val list \<Rightarrow> (error + val) \<times> cell" where
  "array_push c args =
     (let len = array_length c;
          c1 = push_elements c len args;
          n = len + int (length args)
      in if 9007199254740991 < n
         then (Inl (TypeError ''Pushing elements past 2^53 - 1''), c)
         else (case raw_set c1 (KStr ''length'') (VNum n) of
                 Inl err \<Rightarrow> (Inl err, c1)
               | Inr c2 \<Rightarrow> (Inr (VNum n), c2)))"

definition push_only :: array_proto where
  "push_only m h a args =
     (if m = ''push''
      then (case array_push (h a) args of (r, c) \<Rightarrow> (r, h(a := c)))
      else (Inl (Unmodelled m), h))"

text \<open>A listener that leaves the listener table alone: a user function whose body is empty
  or throws at once. \<open>reports\<close> is what one guarded invocation of such a listener adds to
  the trace.\<close>

definition quiet :: "ctx \<Rightarrow> fnref \<Rightarrow> bool" where
  "quiet st f = (case f of Fn c \<Rightarrow> set (bodies st c) \<subseteq> {SThrow} | Wrapper k \<Rightarrow> False)"

definition throws :: "ctx \<Rightarrow> fnref \<Rightarrow> bool" where
  "throws st f = (case f of Fn c \<Rightarrow> bodies st c \<noteq> [] | Wrapper k \<Rightarrow> False)"

definition reports :: "ctx \<Rightarrow> string \<Rightarrow> payload \<Rightarrow> fnref \<Rightarrow> effect list" where
  "reports st e d f = Call f d # (if throws st f then [ConsoleError e] else [])"

subsection \<open>Scenarios\<close>

text \<open>A store with the objects of the scenarios: at 0 the object \<open>{b: <1>}\<close>, at 1
  \<open>{c: 1}\<close>, at 2 \<open>{c: 5}\<close>, at 3 the empty array, at 4 an array with an own property
  \<open>push\<close> holding 5, at 5 an array without elements whose \<open>length\<close> is \<open>2^32 - 1\<close>;
  every other address holds an empty object.\<close>

definition plain_object :: "(key \<times> val) list \<Rightarrow> cell" where
  "plain_object kvs = \<lparr>is_array = False, props = map_of kvs\<rparr>"

definition plain_array :: "(key \<times> val) list \<Rightarrow> cell" where
  "plain_array kvs = \<lparr>is_array = True, props = map_of kvs\<rparr>"

definition scenario_heap :: "nat \<Rightarrow> cell" where
  "scenario_heap =
     (\<lambda>a. plain_object [])
       (0 := plain_object [(KStr ''b'', VObj 1)],
        1 := plain_object [(KStr ''c'', VNum 1)],
        2 := plain_object [(KStr ''c'', VNum 5)],
        3 := plain_array [(KStr ''length'', VNum 0)],
        4 := plain_array [(KStr ''length'', VNum 0), (KStr ''push'', VNum 5)],
        5 := plain_array [(KStr ''length'', VNum 4294967295)])"

text \<open>Listener bodies: function 1 unsubscribes itself from \<open>a.b:c:change\<close> and then
  throws, function 3 throws, every other function returns at once.\<close>

definition scenario_bodies :: "nat \<Rightarrow> stmt list" where
  "scenario_bodies = (\<lambda>c. [])(1 := [SOff ''a.b:c:change'' (Fn 1), SThrow], 3 := [SThrow])"

definition scenario_start :: ctx where
  "scenario_start = new_context scenario_heap scenario_bodies (\<lambda>n. 1000 + n) {}"

text \<open>\<open>createReactiveFields({a: {b: {c: 1}}})\<close>, then \<open>const b = ctx.a.b\<close>.\<close>

definition nested_declared :: ctx where
  "nested_declared = snd (createReactiveFields scenario_start [(''a'', VObj 0)])"

definition nested_traversed :: ctx where
  "nested_traversed = snd (proxy_get nested_declared 0 (KStr ''b''))"

text \<open>\<open>createReactiveFields({items: <4>})\<close> and \<open>createReactiveFields({items: []})\<close>.\<close>

definition shadowed_declared :: ctx where
  "shadowed_declared = snd (createReactiveFields scenario_start [(''items'', VObj 4)])"

definition items_declared :: ctx where
  "items_declared = snd (createReactiveFields scenario_start [(''items'', VObj 3)])"

text \<open>\<open>createReactiveFields({items: <5>})\<close>, the array of length \<open>2^32 - 1\<close>.\<close>

definition full_declared :: ctx where
  "full_declared = snd (createReactiveFields scenario_start [(''items'', VObj 5)])"

text \<open>On \<open>a.b:c:change\<close>: function 1 and then function 6 registered with \<open>on\<close>.\<close>

definition throwing_first :: ctx where
  "throwing_first =
     snd (on (snd (on nested_traversed ''a.b:c:change'' (Fn 1))) ''a.b:c:change'' (Fn 6))"

text \<open>On \<open>a.b:c:change\<close>: \<open>once\<close> with function 5 and then \<open>on\<close> with function 6.\<close>

definition once_then_on :: ctx where
  "once_then_on =
     snd (on (snd (once nested_traversed ''a.b:c:change'' 5)) ''a.b:c:change'' (Fn 6))"

text \<open>On \<open>a.b:c:change\<close>: \<open>once\<close> with function 3, which throws; then
  \<open>ctx.a.b.c = 2\<close> and \<open>ctx.a.b.c = 3\<close>.\<close>

definition once_throwing :: ctx where
  "once_throwing = snd (once nested_traversed ''a.b:c:change'' 3)"

definition once_throwing_twice :: ctx where
  "once_throwing_twice =
     snd (proxy_set (snd (proxy_set once_throwing 1 (KStr ''c'') (VNum 2))) 1 (KStr ''c'') (VNum 3))"

text \<open>With \<open>const old = ctx.a.b\<close> held (node 1): \<open>ctx.a.b = {c: 5}\<close>; \<open>ctx.a.b\<close> read
  again, which wraps the new object; \<open>ctx.on('a.b:c:change', f7)\<close>; then \<open>old.c = 9\<close>.\<close>

definition reassigned :: ctx where
  "reassigned = snd (proxy_set nested_traversed 0 (KStr ''b'') (VObj 2))"

definition retraversed :: ctx where
  "retraversed = snd (proxy_get reassigned 0 (KStr ''b''))"

definition listening_new :: ctx where
  "listening_new = snd (on retraversed ''a.b:c:change'' (Fn 7))"

definition written_through_old :: ctx where
  "written_through_old = snd (proxy_set listening_new 1 (KStr ''c'') (VNum 9))"

section \<open>Properties\<close>

subsection \<open>What a dispatch leaves alone\<close>

lemma emitted_append: "emitted (xs @ ys) = emitted xs @ emitted ys"
  by (induction xs rule: emitted.induct) simp_all

lemma bus_only_refl: "bus_only st st"
  by (simp add: bus_only_def)

lemma bus_only_trans: "bus_only a b \<Longrightarrow> bus_only b c \<Longrightarrow> bus_only a c"
  by (simp add: bus_only_def)

lemma off_bus_only: "bus_only st (off st e f)"
  by (simp add: off_def bus_only_def split: option.splits)

lemma run_stmts_bus_only: "bus_only st (snd (run_stmts st ss))"
proof (induction st ss rule: run_stmts.induct)
  case (3 st e f ss)
  then show ?case using off_bus_only [of st e f] by (auto intro: bus_only_trans)
qed (simp_all add: bus_only_refl)

lemma call_user_bus_only: "bus_only st (snd (call_user st c d))"
proof -
  let ?s = "st\<lparr>trace := trace st @ [Call (Fn c) d]\<rparr>"
  have "bus_only st ?s" by (simp add: bus_only_def emitted_append)
  moreover have "bus_only ?s (snd (run_stmts ?s (bodies st c)))" by (rule run_stmts_bus_only)
  ultimately show ?thesis unfolding call_user_def by (rule bus_only_trans)
qed

lemma call_fn_bus_only: "bus_only st (snd (call_fn st f d))"
proof (cases f)
  case (Fn c)
  then show ?thesis by (simp add: call_user_bus_only)
next
  case (Wrapper k)
  show ?thesis
  proof (cases "wrappers st k")
    case None
    with Wrapper show ?thesis by (simp add: bus_only_refl)
  next
    case (Some ec)
    obtain e c where ec: "ec = (e, c)" by (cases ec)
    let ?s = "st\<lparr>trace := trace st @ [Call (Wrapper k) d]\<rparr>"
    obtain b st1 where r: "call_user ?s c d = (b, st1)" by (cases "call_user ?s c d")
    have "bus_only st ?s" by (simp add: bus_only_def emitted_append)
    moreover have "bus_only ?s st1" using call_user_bus_only [of ?s c d] r by simp
    ultimately have l1: "bus_only st st1" by (rule bus_only_trans)
    have l2: "bus_only st (off st1 e (Wrapper k))"
      using l1 off_bus_only [of st1 e "Wrapper k"] by (rule bus_only_trans)
    show ?thesis
      using Wrapper Some ec r l1 l2 by (cases b) auto
  qed
qed

lemma guarded_call_bus_only: "bus_only st (guarded_call st e f d)"
proof -
  obtain b st1 where r: "call_fn st f d = (b, st1)" by (cases "call_fn st f d")
  have l1: "bus_only st st1" using call_fn_bus_only [of st f d] r by simp
  have "bus_only st1 (st1\<lparr>trace := trace st1 @ [ConsoleError e]\<rparr>)"
    by (simp add: bus_only_def emitted_append)
  with l1 have l2: "bus_only st (st1\<lparr>trace := trace st1 @ [ConsoleError e]\<rparr>)"
    by (rule bus_only_trans)
  show ?thesis using r l1 l2 by (cases b) (simp_all add: guarded_call_def)
qed

lemma dispatch_bus_only: "bus_only st (dispatch st e d i)"
proof (induction st e d i rule: dispatch.induct)
  case (1 st event data i)
  show ?case
  proof (cases "i < length (listeners_of st event)")
    case True
    have "bus_only st (guarded_call st event (listeners_of st event ! i) data)"
      by (rule guarded_call_bus_only)
    then show ?thesis
      using True "1.IH" by (subst dispatch.simps) (auto intro: bus_only_trans)
  next
    case False
    then show ?thesis by (subst dispatch.simps) (simp add: bus_only_refl)
  qed
qed

lemma emit_frame:
  "heap (emit st e d) = heap st" "proxies (emit st e d) = proxies st"
  "proxy_cache (emit st e d) = proxy_cache st" "fields_tab (emit st e d) = fields_tab st"
  "own_props (emit st e d) = own_props st" "next_proxy (emit st e d) = next_proxy st"
  "bodies (emit st e d) = bodies st" "clock (emit st e d) = clock st"
  "ticks (emit st e d) = ticks st"
  "emitted (trace (emit st e d)) = emitted (trace st) @ [(e, d)]"
proof -
  let ?s = "st\<lparr>trace := trace st @ [Emit e d]\<rparr>"
  have a: "bus_only ?s (emit st e d)"
    using dispatch_bus_only [of ?s e d 0]
    by (simp add: emit_def Let_def bus_only_refl split: option.splits)
  show "heap (emit st e d) = heap st" "proxies (emit st e d) = proxies st"
  "proxy_cache (emit st e d) = proxy_cache st" "fields_tab (emit st e d) = fields_tab st"
  "own_props (emit st e d) = own_props st" "next_proxy (emit st e d) = next_proxy st"
  "bodies (emit st e d) = bodies st" "clock (emit st e d) = clock st"
  "ticks (emit st e d) = ticks st"
  "emitted (trace (emit st e d)) = emitted (trace st) @ [(e, d)]"
    using a by (simp_all add: bus_only_def emitted_append)
qed


lemma warn_reassign_string:
  "\<exists>st1. warn_reassign st old (KStr q) = Inr st1 \<and> heap st1 = heap st \<and>
         clock st1 = clock st \<and> ticks st1 = ticks st \<and>
         emitted (trace st1) = emitted (trace st)"
  by (simp add: warn_reassign_def emitted_append)

lemma set_trap_string:
  assumes ok: "raw_set (heap st obj) (KStr q) v = Inr c"
  shows "fst (set_trap st obj N (KStr q) v) = Inr True"
    and "heap (snd (set_trap st obj N (KStr q) v)) = (heap st)(obj := c)"
    and "emitted (trace (snd (set_trap st obj N (KStr q) v))) =
     emitted (trace st) @
       [(N @ '':'' @ q @ '':change'',
         PChange q (UVal (raw_get (heap st obj) (KStr q))) (UVal v) (clock st (ticks st))),
        (N @ '':change'',
         PChange q (UVal (raw_get (heap st obj) (KStr q))) (UVal v) (clock st (Suc (ticks st))))]"
proof -
  obtain st1 where w: "warn_reassign st (raw_get (heap st obj) (KStr q)) (KStr q) = Inr st1"
    and h: "heap st1 = heap st" and c: "clock st1 = clock st" and t: "ticks st1 = ticks st"
    and e: "emitted (trace st1) = emitted (trace st)"
    using warn_reassign_string [of st "raw_get (heap st obj) (KStr q)" q] by blast
  have ok1: "raw_set (heap st1 obj) (KStr q) v = Inr c" using ok h by simp
  show "fst (set_trap st obj N (KStr q) v) = Inr True"
    using w ok1 by (simp add: set_trap_def Let_def Date_now_def)
  show "heap (snd (set_trap st obj N (KStr q) v)) = (heap st)(obj := c)"
    using w ok1 h by (simp add: set_trap_def Let_def Date_now_def emit_frame)
  show "emitted (trace (snd (set_trap st obj N (KStr q) v))) =
     emitted (trace st) @
       [(N @ '':'' @ q @ '':change'',
         PChange q (UVal (raw_get (heap st obj) (KStr q))) (UVal v) (clock st (ticks st))),
        (N @ '':change'',
         PChange q (UVal (raw_get (heap st obj) (KStr q))) (UVal v) (clock st (Suc (ticks st))))]"
    using w ok1 c t e by (simp add: set_trap_def Let_def Date_now_def emit_frame)
qed

lemma set_trap_throws:
  assumes bad: "raw_set (heap st obj) (KStr q) v = Inl err"
  shows "fst (set_trap st obj N (KStr q) v) = Inl err"
    and "emitted (trace (snd (set_trap st obj N (KStr q) v))) = emitted (trace st)"
proof -
  obtain st1 where w: "warn_reassign st (raw_get (heap st obj) (KStr q)) (KStr q) = Inr st1"
    and h: "heap st1 = heap st" and e: "emitted (trace st1) = emitted (trace st)"
    using warn_reassign_string [of st "raw_get (heap st obj) (KStr q)" q] by blast
  have bad1: "raw_set (heap st1 obj) (KStr q) v = Inl err" using bad h by simp
  show "fst (set_trap st obj N (KStr q) v) = Inl err"
    using w bad1 by (simp add: set_trap_def Let_def)
  show "emitted (trace (snd (set_trap st obj N (KStr q) v))) = emitted (trace st)"
    using w bad1 e by (simp add: set_trap_def Let_def)
qed

subsection \<open>The assignment on a raw object\<close>

lemma array_index_length: "array_index ''length'' = None"
  by (simp add: array_index_def is_digit_def)

lemma raw_set_plain:
  "\<not> (is_array c \<and> k = KStr ''length'') \<Longrightarrow> raw_set c k v = Inr (assign_own c k v)"
  by (auto simp: raw_set_def)

lemma raw_set_stores:
  assumes "raw_set c k v = Inr c'" and "\<not> (is_array c \<and> k = KStr ''length'')"
  shows "raw_get c' k = v"
proof -
  have c': "c' = assign_own c k v" using assms raw_set_plain [of c k v] by simp
  show ?thesis
  proof (cases "is_array c")
    case False
    then show ?thesis unfolding c' by (simp add: assign_own_def raw_get_def)
  next
    case True
    with assms(2) have "k \<noteq> KStr ''length''" by simp
    then show ?thesis unfolding c'
      by (auto simp: assign_own_def raw_get_def Let_def split: key.splits option.splits)
  qed
qed

lemma raw_set_others:
  assumes "raw_set c k v = Inr c'" and "\<not> is_array c" and "k' \<noteq> k"
  shows "raw_get c' k' = raw_get c k'"
proof -
  have "c' = assign_own c k v" using assms raw_set_plain [of c k v] by simp
  then show ?thesis using assms(2,3) by (simp add: assign_own_def raw_get_def)
qed

lemma raw_set_index_grows:
  assumes "raw_set c (KStr q) v = Inr c'" and "is_array c" and "array_index q = Some i"
  shows "array_length c' = max (array_length c) (i + 1)"
proof -
  have q: "q \<noteq> ''length''" using assms(3) array_index_length by auto
  then have c': "c' = assign_own c (KStr q) v"
    using assms(1) raw_set_plain [of c "KStr q" v] by simp
  show ?thesis
  proof (cases "array_length c \<le> i")
    case True
    then show ?thesis unfolding c' using assms(2,3)
      by (simp add: assign_own_def Let_def array_length_def raw_get_def)
  next
    case False
    then have "array_length c' = array_length c" unfolding c' using assms(2,3) q
      by (simp add: assign_own_def Let_def array_length_def raw_get_def)
    with False show ?thesis by simp
  qed
qed

lemma raw_set_length:
  assumes "raw_set c (KStr ''length'') v = Inr c'" and "is_array c"
  shows "to_length v = Inr (array_length c')"
proof (cases "to_length v")
  case (Inl err)
  with assms show ?thesis by (simp add: raw_set_def)
next
  case (Inr n)
  with assms have "c' = set_length c n" by (simp add: raw_set_def)
  then have "array_length c' = n" by (simp add: set_length_def array_length_def raw_get_def)
  with Inr show ?thesis by simp
qed

subsection \<open>Writes through a node\<close>

text \<open>The claim C1 as stated fails where the assignment on the raw target throws: node 0
  wraps the empty array at 3; \<open>ctx.items.length = -1\<close> throws a RangeError out of the trap
  and no event is emitted.\<close>

theorem write_of_invalid_length_counterexample:
  "proxies items_declared 0 = Some (3, ''items'') \<and>
   fst (proxy_set items_declared 0 (KStr ''length'') (VNum (- 1))) =
     Inl (RangeError ''Invalid array length'') \<and>
   events_since items_declared
     (snd (proxy_set items_declared 0 (KStr ''length'') (VNum (- 1)))) = []"
  by code_simp

text \<open>C1, amended. An assignment to a string key \<open>q\<close> through a node over \<open>obj\<close> with
  namespace \<open>N\<close>, where the assignment \<open>obj[q] = v\<close> on the raw target does not throw and
  leaves the raw object \<open>c\<close>, returns true, leaves the store with \<open>c\<close> at \<open>obj\<close> and
  emits exactly two events, \<open>N:q:change\<close> and then \<open>N:change\<close>; both payloads carry \<open>q\<close>,
  the value stored before the write and the new value, and each its own reading of the
  clock. No event of a namespace that \<open>N\<close> extends by a dotted path is among them. The
  raw object \<open>c\<close> holds \<open>v\<close> at \<open>q\<close> (unless \<open>q\<close> is the \<open>length\<close> of an array, which
  becomes the number \<open>v\<close> converts to); an object that is not an array is unchanged at every
  other key, and an index write on an array makes \<open>length\<close> at least the index plus
  one.\<close>

theorem write_emits_specific_then_generic:
  assumes "proxies st p = Some (obj, N)"
    and "raw_set (heap st obj) (KStr q) v = Inr c"
  shows "fst (proxy_set st p (KStr q) v) = Inr True \<and>
         heap (snd (proxy_set st p (KStr q) v)) = (heap st)(obj := c) \<and>
         (\<not> (is_array (heap st obj) \<and> q = ''length'') \<longrightarrow> raw_get c (KStr q) = v) \<and>
         (\<not> is_array (heap st obj) \<longrightarrow>
            (\<forall>k. k \<noteq> KStr q \<longrightarrow> raw_get c k = raw_get (heap st obj) k)) \<and>
         (is_array (heap st obj) \<longrightarrow>
            (\<forall>i. array_index q = Some i \<longrightarrow>
               array_length c = max (array_length (heap st obj)) (i + 1))) \<and>
         (is_array (heap st obj) \<and> q = ''length'' \<longrightarrow> to_length v = Inr (array_length c)) \<and>
         events_since st (snd (proxy_set st p (KStr q) v)) =
           [(N @ '':'' @ q @ '':change'',
             PChange q (UVal (raw_get (heap st obj) (KStr q))) (UVal v) (clock st (ticks st))),
            (N @ '':change'',
             PChange q (UVal (raw_get (heap st obj) (KStr q))) (UVal v) (clock st (Suc (ticks st))))] \<and>
         (\<forall>M r q'. N = M @ ''.'' @ r \<longrightarrow>
            M @ '':change'' \<notin> fst ` set (events_since st (snd (proxy_set st p (KStr q) v))) \<and>
            M @ '':'' @ q' @ '':change'' \<notin> fst ` set (events_since st (snd (proxy_set st p (KStr q) v))))"
proof -
  note ok = assms(2)
  have pg: "proxy_set st p (KStr q) v = set_trap st obj N (KStr q) v"
    using assms(1) by (simp add: proxy_set_def)
  have A: "fst (proxy_set st p (KStr q) v) = Inr True"
    unfolding pg using ok by (rule set_trap_string)
  have B: "heap (snd (proxy_set st p (KStr q) v)) = (heap st)(obj := c)"
    unfolding pg using ok by (rule set_trap_string)
  have C: "\<not> (is_array (heap st obj) \<and> q = ''length'') \<longrightarrow> raw_get c (KStr q) = v"
    using raw_set_stores [OF ok] by simp
  have D: "\<not> is_array (heap st obj) \<longrightarrow>
            (\<forall>k. k \<noteq> KStr q \<longrightarrow> raw_get c k = raw_get (heap st obj) k)"
    using raw_set_others [OF ok] by blast
  have E: "is_array (heap st obj) \<longrightarrow>
            (\<forall>i. array_index q = Some i \<longrightarrow>
               array_length c = max (array_length (heap st obj)) (i + 1))"
    using raw_set_index_grows [OF ok] by blast
  have F: "is_array (heap st obj) \<and> q = ''length'' \<longrightarrow> to_length v = Inr (array_length c)"
    using raw_set_length [of "heap st obj" v c] ok by blast
  have G: "events_since st (snd (proxy_set st p (KStr q) v)) =
           [(N @ '':'' @ q @ '':change'',
             PChange q (UVal (raw_get (heap st obj) (KStr q))) (UVal v) (clock st (ticks st))),
            (N @ '':change'',
             PChange q (UVal (raw_get (heap st obj) (KStr q))) (UVal v) (clock st (Suc (ticks st))))]"
    unfolding pg events_since_def using set_trap_string(3) [OF ok, of N] by simp
  have H: "\<forall>M r q'. N = M @ ''.'' @ r \<longrightarrow>
            M @ '':change'' \<notin> fst ` set (events_since st (snd (proxy_set st p (KStr q) v))) \<and>
            M @ '':'' @ q' @ '':change'' \<notin> fst ` set (events_since st (snd (proxy_set st p (KStr q) v)))"
    unfolding G by simp
  show ?thesis using A B C D E F G H by blast
qed

lemma nested_traversed_node: "proxies nested_traversed 1 = Some (1, ''a.b'')"
  by (simp add: nested_traversed_def nested_declared_def scenario_start_def new_context_def
      createReactive_def proxy_get_def get_trap_def raw_get_def scenario_heap_def
      plain_object_def plain_array_def ARRAY_MUTATORS_def)

lemma scenario_cells:
  "\<not> is_array (heap nested_traversed 1)"
  "is_array (heap items_declared 3)"
  "proxies items_declared 0 = Some (3, ''items'')"
  "array_index ''5'' = Some 5"
  "array_length (heap items_declared 3) = 0"
  by code_simp+

theorem write_emits_specific_then_generic_witness:
  "proxies nested_traversed 1 = Some (1, ''a.b'') \<and>
   fst (proxy_set nested_traversed 1 (KStr ''c'') (VNum 2)) = Inr True \<and>
   raw_get (heap (snd (proxy_set nested_traversed 1 (KStr ''c'') (VNum 2))) 1) (KStr ''c'') = VNum 2 \<and>
   map fst (events_since nested_traversed (snd (proxy_set nested_traversed 1 (KStr ''c'') (VNum 2))))
     = [''a.b:c:change'', ''a.b:change''] \<and>
   ''a:change'' \<notin> fst ` set (events_since nested_traversed
                                 (snd (proxy_set nested_traversed 1 (KStr ''c'') (VNum 2)))) \<and>
   array_length (heap (snd (proxy_set items_declared 0 (KStr ''5'') (VStr ''x''))) 3) = 6"
proof -
  let ?c = "assign_own (heap nested_traversed 1) (KStr ''c'') (VNum 2)"
  have ok: "raw_set (heap nested_traversed 1) (KStr ''c'') (VNum 2) = Inr ?c"
    by (rule raw_set_plain) simp
  note t = write_emits_specific_then_generic [OF nested_traversed_node ok]
  let ?st' = "snd (proxy_set nested_traversed 1 (KStr ''c'') (VNum 2))"
  have a: "fst (proxy_set nested_traversed 1 (KStr ''c'') (VNum 2)) = Inr True"
    using t by blast
  have h: "heap ?st' = (heap nested_traversed)(1 := ?c)" using t by blast
  have "\<not> (is_array (heap nested_traversed 1) \<and> ''c'' = ''length'') \<longrightarrow>
          raw_get ?c (KStr ''c'') = VNum 2"
    using t by blast
  then have s: "raw_get (heap ?st' 1) (KStr ''c'') = VNum 2" using h by simp
  have "\<exists>d1 d2. events_since nested_traversed ?st' = [(''a.b:c:change'', d1), (''a.b:change'', d2)]"
    using t by simp
  then have e: "map fst (events_since nested_traversed ?st') = [''a.b:c:change'', ''a.b:change'']"
    by auto
  have "''a.b'' = ''a'' @ ''.'' @ ''b'' \<longrightarrow>
        ''a'' @ '':change'' \<notin> fst ` set (events_since nested_traversed ?st')"
    using t by blast
  then have n: "''a:change'' \<notin> fst ` set (events_since nested_traversed ?st')"
    by simp
  let ?d = "assign_own (heap items_declared 3) (KStr ''5'') (VStr ''x'')"
  have ok2: "raw_set (heap items_declared 3) (KStr ''5'') (VStr ''x'') = Inr ?d"
    by (rule raw_set_plain) simp
  note u = write_emits_specific_then_generic [OF scenario_cells(3) ok2]
  have h2: "heap (snd (proxy_set items_declared 0 (KStr ''5'') (VStr ''x''))) =
              (heap items_declared)(3 := ?d)"
    using u by blast
  have "is_array (heap items_declared 3) \<longrightarrow>
          (\<forall>i. array_index ''5'' = Some i \<longrightarrow>
             array_length ?d = max (array_length (heap items_declared 3)) (i + 1))"
    using u by blast
  then have "array_length ?d = 6" using scenario_cells by simp
  then have g: "array_length (heap (snd (proxy_set items_declared 0 (KStr ''5'') (VStr ''x''))) 3) = 6"
    using h2 by simp
  show ?thesis using nested_traversed_node a s e n g by blast
qed

subsection \<open>Reads through a node\<close>

lemma get_trap_leaf:
  assumes "observable (KStr q)" "\<not> is_object (raw_get (heap st obj) (KStr q))"
    "\<not> (is_array (heap st obj) \<and> q \<in> set ARRAY_MUTATORS)"
  shows "fst (get_trap st obj N (KStr q)) = Inr (UVal (raw_get (heap st obj) (KStr q)))"
    "heap (snd (get_trap st obj N (KStr q))) = heap st"
    "emitted (trace (snd (get_trap st obj N (KStr q)))) =
       emitted (trace st) @
        [(N @ '':'' @ q @ '':read'', PRead q (raw_get (heap st obj) (KStr q)) (clock st (ticks st))),
         (N @ '':read'', PRead q (raw_get (heap st obj) (KStr q)) (clock st (Suc (ticks st))))]"
  using assms by (auto simp add: get_trap_def Date_now_def Let_def emit_frame)

lemma get_trap_unobservable:
  assumes "\<not> observable k"
  shows "emitted (trace (snd (get_trap st obj N k))) = emitted (trace st)"
    "\<not> is_object (raw_get (heap st obj) k) \<Longrightarrow> \<not> (is_array (heap st obj) \<and> includes_key ARRAY_MUTATORS k)
      \<Longrightarrow> get_trap st obj N k = (Inr (UVal (raw_get (heap st obj) k)), st)"
  using assms
  by (auto simp add: get_trap_def Let_def createReactive_def split: sum.splits prod.splits val.splits option.splits key.splits)

text \<open>The claim C2 as stated fails on an array whose own property named after a mutating
  method holds a primitive: node 0 wraps the array at 4, whose own property \<open>push\<close>
  holds 5; \<open>push\<close> is a string key that does not start with an underscore; the read
  returns the callable of the mutator branch, not 5, and emits nothing.\<close>

theorem read_of_shadowed_mutator_counterexample:
  "proxies shadowed_declared 0 = Some (4, ''items'') \<and>
   observable (KStr ''push'') \<and>
   raw_get (heap shadowed_declared 4) (KStr ''push'') = VNum 5 \<and>
   fst (proxy_get shadowed_declared 0 (KStr ''push'')) = Inr (UCallable 4 ''push'' ''items'') \<and>
   events_since shadowed_declared (snd (proxy_get shadowed_declared 0 (KStr ''push''))) = []"
  by code_simp

text \<open>C2, amended. A read of a string key \<open>q\<close> that does not start with an underscore,
  where the raw target holds a value that is not an object at \<open>q\<close> and the read is not
  the read of a mutating method name on an array, returns the raw value, changes no raw
  object and emits exactly two events, \<open>N:q:read\<close> and then \<open>N:read\<close>, both carrying
  \<open>q\<close> and that value. A read of a symbol key or of a key that starts with an underscore
  emits nothing, and returns the raw value when that value is not an object.\<close>

theorem read_emits_specific_then_generic:
  assumes "proxies st p = Some (obj, N)"
  shows "(observable (KStr q) \<and> \<not> is_object (raw_get (heap st obj) (KStr q)) \<and>
          \<not> (is_array (heap st obj) \<and> q \<in> set ARRAY_MUTATORS) \<longrightarrow>
            fst (proxy_get st p (KStr q)) = Inr (UVal (raw_get (heap st obj) (KStr q))) \<and>
            heap (snd (proxy_get st p (KStr q))) = heap st \<and>
            events_since st (snd (proxy_get st p (KStr q))) =
              [(N @ '':'' @ q @ '':read'',
                PRead q (raw_get (heap st obj) (KStr q)) (clock st (ticks st))),
               (N @ '':read'',
                PRead q (raw_get (heap st obj) (KStr q)) (clock st (Suc (ticks st))))]) \<and>
         (\<not> observable k \<longrightarrow>
            events_since st (snd (proxy_get st p k)) = [] \<and>
            (\<not> is_object (raw_get (heap st obj) k) \<and>
             \<not> (is_array (heap st obj) \<and> includes_key ARRAY_MUTATORS k) \<longrightarrow>
               proxy_get st p k = (Inr (UVal (raw_get (heap st obj) k)), st)))"
  using assms
  by (simp add: proxy_get_def events_since_def get_trap_leaf get_trap_unobservable)

lemma nested_traversed_leaf:
  "observable (KStr ''c'') \<and> \<not> is_object (raw_get (heap nested_traversed 1) (KStr ''c'')) \<and>
   \<not> (is_array (heap nested_traversed 1) \<and> ''c'' \<in> set ARRAY_MUTATORS) \<and>
   raw_get (heap nested_traversed 1) (KStr ''c'') = VNum 1 \<and> \<not> observable (KStr ''_c'')"
  by code_simp

theorem read_emits_specific_then_generic_witness:
  "proxies nested_traversed 1 = Some (1, ''a.b'') \<and>
   fst (proxy_get nested_traversed 1 (KStr ''c'')) = Inr (UVal (VNum 1)) \<and>
   map fst (events_since nested_traversed (snd (proxy_get nested_traversed 1 (KStr ''c''))))
     = [''a.b:c:read'', ''a.b:read''] \<and>
   events_since nested_traversed (snd (proxy_get nested_traversed 1 (KStr ''_c''))) = []"
proof -
  note t = read_emits_specific_then_generic
             [OF nested_traversed_node, of "''c''" "KStr ''_c''"]
  let ?st' = "snd (proxy_get nested_traversed 1 (KStr ''c''))"
  have a: "fst (proxy_get nested_traversed 1 (KStr ''c'')) = Inr (UVal (VNum 1))"
    using t nested_traversed_leaf by simp
  have "\<exists>d1 d2. events_since nested_traversed ?st' = [(''a.b:c:read'', d1), (''a.b:read'', d2)]"
    using t nested_traversed_leaf by simp
  then have e: "map fst (events_since nested_traversed ?st') = [''a.b:c:read'', ''a.b:read'']"
    by auto
  have u: "events_since nested_traversed (snd (proxy_get nested_traversed 1 (KStr ''_c''))) = []"
    using t nested_traversed_leaf by blast
  show ?thesis using nested_traversed_node a e u by blast
qed

subsection \<open>Mutating array methods\<close>

text \<open>The claim C3 as stated fails where the built-in method throws: node 0 wraps the array
  at 5, whose \<open>length\<close> is \<open>2^32 - 1\<close>; \<open>ctx.items.push('a')\<close> throws a RangeError out
  of the callable and no event is emitted.\<close>

theorem push_past_limit_counterexample:
  "proxies full_declared 0 = Some (5, ''items'') \<and> is_array (heap full_declared 5) \<and>
   fst (proxy_get full_declared 0 (KStr ''push'')) = Inr (UCallable 5 ''push'' ''items'') \<and>
   fst (call_mutator push_only full_declared 5 ''push'' ''items'' [VStr ''a'']) =
     Inl (RangeError ''Invalid array length'') \<and>
   events_since full_declared
     (snd (call_mutator push_only full_declared 5 ''push'' ''items'' [VStr ''a''])) = []"
  by code_simp

text \<open>C3, amended. On a node over an array \<open>obj\<close> with namespace \<open>N\<close>, reading one of
  the nine mutating method names returns a callable and emits nothing. Whenever the
  callable is invoked and the built-in method returns without throwing, the raw store is
  what the built-in method left, the result is the built-in method's result, and exactly
  one event is emitted, \<open>N:change\<close>, whose payload carries the method name, the arguments
  and the value of \<open>length\<close> after the mutation.\<close>

theorem mutator_emits_one_change:
  assumes "proxies st p = Some (obj, N)" and "is_array (heap st obj)"
    and "m \<in> set ARRAY_MUTATORS"
    and "AP m (heap st2) obj args = (Inr r, h)"
  shows "proxy_get st p (KStr m) = (Inr (UCallable obj m N), st) \<and>
         fst (call_mutator AP st2 obj m N args) = Inr r \<and>
         heap (snd (call_mutator AP st2 obj m N args)) = h \<and>
         events_since st2 (snd (call_mutator AP st2 obj m N args)) =
           [(N @ '':change'',
             PMut m args (raw_get (h obj) (KStr ''length'')) (clock st2 (ticks st2)))]"
  using assms
  by (simp add: proxy_get_def get_trap_def call_mutator_def Date_now_def events_since_def
      emit_frame)

lemma items_declared_push:
  "''push'' \<in> set ARRAY_MUTATORS"
  "fst (array_push (heap items_declared 3) [VStr ''a'']) = Inr (VNum 1)"
  "raw_get (snd (array_push (heap items_declared 3) [VStr ''a''])) (KStr ''length'') = VNum 1"
  "raw_get (snd (array_push (heap items_declared 3) [VStr ''a''])) (KStr ''0'') = VStr ''a''"
  by code_simp+

theorem mutator_emits_one_change_witness:
  "proxies items_declared 0 = Some (3, ''items'') \<and> is_array (heap items_declared 3) \<and>
   ''push'' \<in> set ARRAY_MUTATORS \<and>
   fst (proxy_get items_declared 0 (KStr ''push'')) = Inr (UCallable 3 ''push'' ''items'') \<and>
   fst (call_mutator push_only items_declared 3 ''push'' ''items'' [VStr ''a'']) = Inr (VNum 1) \<and>
   raw_get (heap (snd (call_mutator push_only items_declared 3 ''push'' ''items'' [VStr ''a''])) 3)
     (KStr ''0'') = VStr ''a'' \<and>
   events_since items_declared
       (snd (call_mutator push_only items_declared 3 ''push'' ''items'' [VStr ''a''])) =
     [(''items:change'', PMut ''push'' [VStr ''a''] (VNum 1) (clock items_declared (ticks items_declared)))]"
proof -
  let ?c = "snd (array_push (heap items_declared 3) [VStr ''a''])"
  let ?h = "(heap items_declared)(3 := ?c)"
  note n = scenario_cells(3) and ia = scenario_cells(2) and m = items_declared_push(1)
  have ap: "push_only ''push'' (heap items_declared) 3 [VStr ''a''] = (Inr (VNum 1), ?h)"
    using items_declared_push(2) by (simp add: push_only_def case_prod_beta)
  note t = mutator_emits_one_change
             [where st = items_declared and ?st2.0 = items_declared and AP = push_only,
              OF n ia m ap]
  have g: "fst (proxy_get items_declared 0 (KStr ''push'')) = Inr (UCallable 3 ''push'' ''items'')"
    using t by simp
  have r: "fst (call_mutator push_only items_declared 3 ''push'' ''items'' [VStr ''a'']) = Inr (VNum 1)"
    using t by blast
  have "heap (snd (call_mutator push_only items_declared 3 ''push'' ''items'' [VStr ''a''])) = ?h"
    using t by blast
  then have s: "raw_get (heap (snd (call_mutator push_only items_declared 3 ''push'' ''items''
                   [VStr ''a''])) 3) (KStr ''0'') = VStr ''a''"
    using items_declared_push(4) by simp
  have e: "events_since items_declared
       (snd (call_mutator push_only items_declared 3 ''push'' ''items'' [VStr ''a''])) =
     [(''items:change'', PMut ''push'' [VStr ''a''] (VNum 1) (clock items_declared (ticks items_declared)))]"
    using t items_declared_push(3) by simp
  show ?thesis using n ia m g r s e by blast
qed

subsection \<open>Identity of nodes\<close>

lemma extends_refl: "extends st st"
  by (simp add: extends_def)

lemma extends_trans: "extends a b \<Longrightarrow> extends b c \<Longrightarrow> extends a c"
  unfolding extends_def by blast

lemma extends_same:
  assumes "proxy_cache st' = proxy_cache st" "proxies st' = proxies st"
    "next_proxy st' = next_proxy st"
  shows "extends st st'"
  unfolding extends_def cache_ok_def assms by blast

lemma cache_ok_fresh:
  assumes ok: "cache_ok st"
  shows "proxies st (next_proxy st) = None"
proof (rule ccontr)
  assume "proxies st (next_proxy st) \<noteq> None"
  then obtain a ns where "proxies st (next_proxy st) = Some (a, ns)" by auto
  with ok have "next_proxy st < next_proxy st" unfolding cache_ok_def by blast
  then show False by simp
qed

lemma createReactive_extends: "extends st (snd (createReactive st w ns))"
proof (cases w)
  case (VObj a)
  show ?thesis
  proof (cases "proxy_cache st a")
    case None
    show ?thesis
      unfolding extends_def
    proof
      assume ok: "cache_ok st"
      have fresh: "proxies st (next_proxy st) = None" using ok by (rule cache_ok_fresh)
      let ?st' = "snd (createReactive st w ns)"
      have c: "proxy_cache ?st' = (proxy_cache st)(a \<mapsto> next_proxy st)"
        and p: "proxies ?st' = (proxies st)(next_proxy st \<mapsto> (a, ns))"
        and n: "next_proxy ?st' = Suc (next_proxy st)"
        using VObj None by (simp_all add: createReactive_def Let_def)
      have ok1: "\<forall>b q. proxy_cache ?st' b = Some q \<longrightarrow> (\<exists>x. proxies ?st' q = Some (b, x))"
      proof (intro allI impI)
        fix b q
        assume h: "proxy_cache ?st' b = Some q"
        show "\<exists>x. proxies ?st' q = Some (b, x)"
        proof (cases "b = a")
          case True
          with h c have "q = next_proxy st" by simp
          with True p show ?thesis by simp
        next
          case False
          with h c have hq: "proxy_cache st b = Some q" by simp
          with ok obtain x where x: "proxies st q = Some (b, x)" unfolding cache_ok_def by blast
          with fresh have "q \<noteq> next_proxy st" by auto
          with x p show ?thesis by simp
        qed
      qed
      have ok2: "\<forall>q b x. proxies ?st' q = Some (b, x) \<longrightarrow>
                   proxy_cache ?st' b = Some q \<and> q < next_proxy ?st'"
      proof (intro allI impI)
        fix q b x
        assume h: "proxies ?st' q = Some (b, x)"
        show "proxy_cache ?st' b = Some q \<and> q < next_proxy ?st'"
        proof (cases "q = next_proxy st")
          case True
          with h p have "b = a" by simp
          with True c n show ?thesis by simp
        next
          case False
          with h p have hq: "proxies st q = Some (b, x)" by simp
          with ok have cq: "proxy_cache st b = Some q" and lt: "q < next_proxy st"
            unfolding cache_ok_def by blast+
          from cq None have "b \<noteq> a" by auto
          with cq lt c n show ?thesis by simp
        qed
      qed
      have ok': "cache_ok ?st'"
        unfolding cache_ok_def using ok1 ok2 by blast
      have le: "\<forall>b q. proxy_cache st b = Some q \<longrightarrow> proxy_cache ?st' b = Some q"
        unfolding c using None by auto
      have pr: "\<forall>q x. proxies st q = Some x \<longrightarrow> proxies ?st' q = Some x"
        unfolding p using fresh by auto
      show "cache_ok ?st' \<and>
        (\<forall>a p. proxy_cache st a = Some p \<longrightarrow> proxy_cache ?st' a = Some p) \<and>
        (\<forall>p x. proxies st p = Some x \<longrightarrow> proxies ?st' p = Some x)"
        using ok' le pr by blast
    qed
  next
    case (Some p)
    with VObj show ?thesis by (simp add: createReactive_def extends_refl)
  qed
qed (simp_all add: createReactive_def extends_refl)

lemma same_cache_refl: "same_cache st st"
  by (simp add: same_cache_def)

lemma same_cache_trans: "same_cache a b \<Longrightarrow> same_cache b c \<Longrightarrow> same_cache a c"
  unfolding same_cache_def by simp

lemma same_cache_extends: "same_cache st st' \<Longrightarrow> extends st st'"
  unfolding same_cache_def by (rule extends_same) simp_all

lemma get_trap_extends: "extends st (snd (get_trap st obj N k))"
proof (cases "is_array (heap st obj) \<and> includes_key ARRAY_MUTATORS k")
  case True
  then show ?thesis by (simp add: get_trap_def Let_def extends_refl)
next
  case False
  then have nm: "(is_array (heap st obj) \<and> includes_key ARRAY_MUTATORS k) = False" by simp
  show ?thesis
  proof (cases "is_object (raw_get (heap st obj) k)")
    case True
    show ?thesis
    proof (cases "to_string k")
      case (Inl err)
      with True show ?thesis by (simp add: get_trap_def Let_def nm extends_refl)
    next
      case (Inr s)
      have "snd (get_trap st obj N k) =
              snd (createReactive st (raw_get (heap st obj) k) (N @ ''.'' @ s))"
        using True Inr by (simp add: get_trap_def Let_def nm split: prod.splits)
      then show ?thesis by (simp add: createReactive_extends)
    qed
  next
    case no: False
    have "same_cache st (snd (get_trap st obj N k))"
    proof (cases k)
      case (KSym n)
      with no show ?thesis by (simp add: get_trap_def Let_def nm same_cache_def)
    next
      case (KStr s)
      show ?thesis
      proof (cases "observable k")
        case False
        with no KStr show ?thesis by (simp add: get_trap_def Let_def nm same_cache_def)
      next
        case True
        with no KStr show ?thesis
          by (simp add: get_trap_def Let_def nm same_cache_def Date_now_def emit_frame)
      qed
    qed
    then show ?thesis by (rule same_cache_extends)
  qed
qed

lemma warn_reassign_same:
  "warn_reassign st v k = Inr st1 \<Longrightarrow> same_cache st st1"
  by (auto simp: warn_reassign_def same_cache_def split: if_splits sum.splits)

lemma set_trap_same: "same_cache st (snd (set_trap st obj N k v))"
proof (cases "warn_reassign st (raw_get (heap st obj) k) k")
  case (Inl err)
  then show ?thesis by (simp add: set_trap_def Let_def same_cache_refl)
next
  case w: (Inr st1)
  have s1: "same_cache st st1" using w by (rule warn_reassign_same)
  show ?thesis
  proof (cases "raw_set (heap st1 obj) k v")
    case (Inl err)
    with w s1 show ?thesis by (simp add: set_trap_def Let_def)
  next
    case a: (Inr c)
    show ?thesis
    proof (cases "to_string k")
      case (Inl err)
      with w a s1 show ?thesis by (simp add: set_trap_def Let_def same_cache_def)
    next
      case (Inr s)
      with w a s1 show ?thesis
        by (simp add: set_trap_def Let_def same_cache_def Date_now_def emit_frame)
    qed
  qed
qed

lemma set_trap_extends: "extends st (snd (set_trap st obj N k v))"
  using set_trap_same by (rule same_cache_extends)

lemma call_mutator_extends: "extends st (snd (call_mutator AP st obj m N args))"
proof -
  obtain r h where rh: "AP m (heap st) obj args = (r, h)"
    by (cases "AP m (heap st) obj args")
  have "same_cache st (snd (call_mutator AP st obj m N args))"
    using rh by (cases r) (simp_all add: call_mutator_def same_cache_def Date_now_def emit_frame)
  then show ?thesis by (rule same_cache_extends)
qed

lemma createReactiveFields_extends: "extends st (snd (createReactiveFields st defs))"
proof (induction st defs rule: createReactiveFields.induct)
  case (1 st)
  show ?case by (simp add: extends_refl)
next
  case (2 st field_name initial_value rest)
  show ?case
  proof (cases "field_name \<in> own_props st")
    case True
    then show ?thesis by (simp add: extends_refl)
  next
    case False
    obtain node st1 where cr: "createReactive st initial_value field_name = (node, st1)"
      by (cases "createReactive st initial_value field_name")
    let ?s = "st1\<lparr>fields_tab := (fields_tab st1)(field_name \<mapsto> node),
                   own_props := insert field_name (own_props st1)\<rparr>"
    have e1: "extends st st1" using createReactive_extends [of st initial_value field_name] cr by simp
    have e2: "extends st1 ?s" by (rule extends_same) simp_all
    have e3: "extends ?s (snd (createReactiveFields ?s rest))"
      using "2.IH" [OF False cr [symmetric]] by simp
    have "extends st (snd (createReactiveFields ?s rest))"
      using e1 e2 e3 by (blast intro: extends_trans)
    then show ?thesis using False cr by simp
  qed
qed

lemma field_set_extends: "extends st (field_set st n v)"
proof (cases "fields_tab st n")
  case None
  then have "same_cache st (field_set st n v)" by (simp add: field_set_def same_cache_def)
  then show ?thesis by (rule same_cache_extends)
next
  case (Some old_value)
  define s1 where "s1 = (if is_object_u old_value
             then st\<lparr>trace := trace st @ [Warn True (type_name_u st old_value) n]\<rparr> else st)"
  obtain node st2 where cr: "createReactive s1 v n = (node, st2)"
    by (cases "createReactive s1 v n")
  have "same_cache st s1" by (simp add: s1_def same_cache_def)
  then have e1: "extends st s1" by (rule same_cache_extends)
  have e2: "extends s1 st2" using createReactive_extends [of s1 v n] cr by simp
  have f: "field_set st n v =
             emit (snd (Date_now (st2\<lparr>fields_tab := (fields_tab st2)(n \<mapsto> node)\<rparr>)))
               (n @ '':change'')
               (PChange n old_value (UVal v)
                  (fst (Date_now (st2\<lparr>fields_tab := (fields_tab st2)(n \<mapsto> node)\<rparr>))))"
    using Some cr unfolding field_set_def s1_def by (simp add: Let_def split: prod.splits)
  have "same_cache st2 (field_set st n v)"
    unfolding f by (simp add: same_cache_def Date_now_def emit_frame)
  then have e3: "extends st2 (field_set st n v)" by (rule same_cache_extends)
  show ?thesis using e1 e2 e3 by (blast intro: extends_trans)
qed

lemma perform_extends: "extends st (perform AP st act)"
proof (cases act)
  case (NodeGet p k)
  show ?thesis
  proof (cases "proxies st p")
    case None
    with NodeGet show ?thesis by (simp add: proxy_get_def extends_refl)
  next
    case (Some on)
    obtain obj N where "on = (obj, N)" by (cases on)
    with NodeGet Some show ?thesis by (simp add: proxy_get_def get_trap_extends)
  qed
next
  case (NodeSet p k v)
  show ?thesis
  proof (cases "proxies st p")
    case None
    with NodeSet show ?thesis by (simp add: proxy_set_def extends_refl)
  next
    case (Some on)
    obtain obj N where "on = (obj, N)" by (cases on)
    with NodeSet Some show ?thesis by (simp add: proxy_set_def set_trap_extends)
  qed
next
  case (NodeDelete p k)
  show ?thesis
  proof (cases "proxies st p")
    case None
    with NodeDelete show ?thesis by (simp add: proxy_delete_def extends_refl)
  next
    case (Some on)
    obtain obj N where "on = (obj, N)" by (cases on)
    with NodeDelete Some have "same_cache st (perform AP st act)"
      by (simp add: proxy_delete_def same_cache_def)
    then show ?thesis by (rule same_cache_extends)
  qed
next
  case (DeclareFields defs)
  then show ?thesis by (simp add: createReactiveFields_extends)
next
  case (WriteField n v)
  then show ?thesis by (simp add: field_set_extends)
next
  case (ArrayMethod obj m ns args)
  then show ?thesis by (simp add: call_mutator_extends)
next
  case (Subscribe e f)
  then have "same_cache st (perform AP st act)" by (simp add: on_def same_cache_def)
  then show ?thesis by (rule same_cache_extends)
next
  case (Unsubscribe e f)
  then have "same_cache st (perform AP st act)"
    by (simp add: off_def same_cache_def split: option.splits)
  then show ?thesis by (rule same_cache_extends)
next
  case (SubscribeOnce e c)
  then have "same_cache st (perform AP st act)"
    by (simp add: once_def on_def Let_def same_cache_def)
  then show ?thesis by (rule same_cache_extends)
next
  case (Clear ev)
  then have "same_cache st (perform AP st act)"
    by (simp add: removeAllListeners_def same_cache_def split: option.splits)
  then show ?thesis by (rule same_cache_extends)
next
  case (RawWrite h)
  then have "same_cache st (perform AP st act)" by (simp add: same_cache_def)
  then show ?thesis by (rule same_cache_extends)
qed

lemma run_extends: "extends st (run AP st acts)"
proof (induction acts arbitrary: st)
  case Nil
  show ?case by (simp add: run_def extends_refl)
next
  case (Cons act acts)
  have "extends st (perform AP st act)" by (rule perform_extends)
  moreover have "extends (perform AP st act) (run AP (perform AP st act) acts)" by (rule Cons.IH)
  ultimately show ?case by (simp add: run_def extends_trans)
qed

lemma cache_ok_new: "cache_ok (new_context h b c own)"
  by (simp add: cache_ok_def new_context_def)

lemma createReactive_cached:
  "createReactive st (VObj a) ns = (u, st1) \<Longrightarrow> \<exists>p. u = UNode p \<and> proxy_cache st1 a = Some p"
  by (auto simp: createReactive_def Let_def split: option.splits)

lemma createReactive_hit:
  "proxy_cache st a = Some p \<Longrightarrow> createReactive st (VObj a) ns = (UNode p, st)"
  by (simp add: createReactive_def)

lemma get_trap_mutator:
  assumes "is_array (heap st obj) \<and> includes_key ARRAY_MUTATORS k"
  shows "\<exists>m. get_trap st obj N k = (Inr (UCallable obj m N), st)"
  using assms by (simp add: get_trap_def Let_def)

lemma get_trap_object:
  assumes "raw_get (heap st obj) k = VObj a" and "to_string k = Inr s"
    and "\<not> (is_array (heap st obj) \<and> includes_key ARRAY_MUTATORS k)"
  shows "get_trap st obj N k =
           (Inr (fst (createReactive st (VObj a) (N @ ''.'' @ s))),
            snd (createReactive st (VObj a) (N @ ''.'' @ s)))"
  using assms
  by (cases "is_array (heap st obj)"; cases "includes_key ARRAY_MUTATORS k")
     (simp_all add: get_trap_def Let_def split: prod.splits)

lemma get_trap_symbol_object:
  assumes "is_object (raw_get (heap st obj) k)" and "to_string k = Inl err"
    and "\<not> (is_array (heap st obj) \<and> includes_key ARRAY_MUTATORS k)"
  shows "get_trap st obj N k = (Inl err, st)"
  using assms
  by (cases "is_array (heap st obj)"; cases "includes_key ARRAY_MUTATORS k")
     (simp_all add: get_trap_def Let_def)

lemma get_trap_leaf_value:
  assumes "\<not> is_object (raw_get (heap st obj) k)"
    and "\<not> (is_array (heap st obj) \<and> includes_key ARRAY_MUTATORS k)"
  shows "fst (get_trap st obj N k) = Inr (UVal (raw_get (heap st obj) k))"
  using assms
  by (cases "is_array (heap st obj)"; cases "includes_key ARRAY_MUTATORS k"; cases k;
      cases "observable k")
     (simp_all add: get_trap_def Let_def Date_now_def)

lemma get_trap_node:
  assumes g: "fst (get_trap st obj N k) = Inr (UNode n)"
  shows "\<exists>a s. raw_get (heap st obj) k = VObj a \<and> to_string k = Inr s \<and>
               \<not> (is_array (heap st obj) \<and> includes_key ARRAY_MUTATORS k)"
proof (cases "is_array (heap st obj) \<and> includes_key ARRAY_MUTATORS k")
  case True
  from get_trap_mutator [OF True, of N] g show ?thesis by auto
next
  case nm: False
  show ?thesis
  proof (cases "is_object (raw_get (heap st obj) k)")
    case True
    then obtain a where va: "raw_get (heap st obj) k = VObj a"
      by (cases "raw_get (heap st obj) k") simp_all
    show ?thesis
    proof (cases "to_string k")
      case (Inl err)
      from get_trap_symbol_object [OF True Inl nm, of N] g show ?thesis by simp
    next
      case (Inr s)
      with va nm show ?thesis by blast
    qed
  next
    case False
    from get_trap_leaf_value [OF False nm, of N] g show ?thesis by simp
  qed
qed

text \<open>C4. In every state that a run of public operations reaches from a new context, a
  raw object has at most one node. Once \<open>#createReactive\<close> has returned a node for a raw
  object, every later wrap of that object, after any further run and under any namespace,
  returns the same node and changes nothing. In particular a read through a node that
  returned a nested node returns the same nested node when it is repeated.\<close>

theorem wrap_identity_stable:
  assumes r: "st = run AP (new_context h b c own) acts"
    and w: "createReactive st (VObj a) ns = (u, st1)"
    and l: "st2 = run AP st1 acts'"
  shows "createReactive st2 (VObj a) ns' = (u, st2) \<and>
         (\<forall>p q x y. proxies st2 p = Some (a, x) \<and> proxies st2 q = Some (a, y) \<longrightarrow> p = q) \<and>
         (\<forall>p k n. fst (proxy_get st2 p k) = Inr (UNode n) \<longrightarrow>
            proxy_get (snd (proxy_get st2 p k)) p k = (Inr (UNode n), snd (proxy_get st2 p k)))"
proof -
  have ok: "cache_ok st"
    using run_extends [of "new_context h b c own" AP acts] r cache_ok_new [of h b c own]
    unfolding extends_def by blast
  have e1: "extends st st1" using createReactive_extends [of st "VObj a" ns] w by simp
  have ok1: "cache_ok st1" using e1 ok unfolding extends_def by blast
  have e2: "extends st1 st2" using l run_extends [of st1 AP acts'] by simp
  have ok2: "cache_ok st2" using e2 ok1 unfolding extends_def by blast
  obtain p where u: "u = UNode p" and c1: "proxy_cache st1 a = Some p"
    using createReactive_cached [OF w] by blast
  have c2: "proxy_cache st2 a = Some p" using e2 ok1 c1 unfolding extends_def by blast
  have A: "createReactive st2 (VObj a) ns' = (u, st2)"
    using createReactive_hit [OF c2] u by simp
  have B: "\<forall>p q x y. proxies st2 p = Some (a, x) \<and> proxies st2 q = Some (a, y) \<longrightarrow> p = q"
  proof (intro allI impI)
    fix p q x y
    assume h: "proxies st2 p = Some (a, x) \<and> proxies st2 q = Some (a, y)"
    from h ok2 have "proxy_cache st2 a = Some p" unfolding cache_ok_def by blast
    moreover from h ok2 have "proxy_cache st2 a = Some q" unfolding cache_ok_def by blast
    ultimately show "p = q" by simp
  qed
  have C: "\<forall>p k n. fst (proxy_get st2 p k) = Inr (UNode n) \<longrightarrow>
            proxy_get (snd (proxy_get st2 p k)) p k = (Inr (UNode n), snd (proxy_get st2 p k))"
  proof (intro allI impI)
    fix p k n
    assume g: "fst (proxy_get st2 p k) = Inr (UNode n)"
    show "proxy_get (snd (proxy_get st2 p k)) p k = (Inr (UNode n), snd (proxy_get st2 p k))"
    proof (cases "proxies st2 p")
      case None
      with g show ?thesis by (simp add: proxy_get_def)
    next
      case (Some on)
      obtain obj N where on: "on = (obj, N)" by (cases on)
      have pg: "proxy_get st2 p k = get_trap st2 obj N k"
        using Some on by (simp add: proxy_get_def)
      from g pg have gt: "fst (get_trap st2 obj N k) = Inr (UNode n)" by simp
      from get_trap_node [OF gt] obtain a' s where
        va: "raw_get (heap st2 obj) k = VObj a'" and ts: "to_string k = Inr s" and
        nm: "\<not> (is_array (heap st2 obj) \<and> includes_key ARRAY_MUTATORS k)"
        by blast
      obtain u3 st3 where cr: "createReactive st2 (VObj a') (N @ ''.'' @ s) = (u3, st3)"
        by (cases "createReactive st2 (VObj a') (N @ ''.'' @ s)")
      have gs: "get_trap st2 obj N k = (Inr u3, st3)"
        using get_trap_object [OF va ts nm, of N] cr by simp
      with gt have u3: "u3 = UNode n" by simp
      have e3: "extends st2 st3"
        using createReactive_extends [of st2 "VObj a'" "N @ ''.'' @ s"] cr by simp
      have p3: "proxies st3 p = Some (obj, N)"
        using e3 ok2 Some on unfolding extends_def by blast
      have h3: "heap st3 = heap st2"
        using cr by (auto simp: createReactive_def Let_def split: option.splits)
      have c3: "proxy_cache st3 a' = Some n"
        using createReactive_cached [OF cr] u3 by simp
      have va3: "raw_get (heap st3 obj) k = VObj a'" using va h3 by simp
      have nm3: "\<not> (is_array (heap st3 obj) \<and> includes_key ARRAY_MUTATORS k)"
        using nm h3 by simp
      have "get_trap st3 obj N k = (Inr (UNode n), st3)"
        using get_trap_object [OF va3 ts nm3, of N] createReactive_hit [OF c3] by simp
      then have "proxy_get st3 p k = (Inr (UNode n), st3)"
        using p3 by (simp add: proxy_get_def)
      then show ?thesis using pg gs by simp
    qed
  qed
  show ?thesis using A B C by blast
qed

lemma nested_object_node: "fst (createReactive nested_declared (VObj 1) ''a.b'') = UNode 1"
  by code_simp

theorem wrap_identity_stable_witness:
  "fst (createReactive
         (run push_only (snd (createReactive nested_declared (VObj 1) ''a.b''))
            [NodeSet 1 (KStr ''c'') (VNum 2), WriteField ''a'' (VObj 2)])
         (VObj 1) ''elsewhere'') = UNode 1"
proof -
  have r: "nested_declared =
             run push_only (new_context scenario_heap scenario_bodies (\<lambda>n. 1000 + n) {})
               [DeclareFields [(''a'', VObj 0)]]"
    by (simp add: run_def nested_declared_def scenario_start_def)
  have w: "createReactive nested_declared (VObj 1) ''a.b'' =
             (fst (createReactive nested_declared (VObj 1) ''a.b''),
              snd (createReactive nested_declared (VObj 1) ''a.b''))"
    by simp
  have l: "run push_only (snd (createReactive nested_declared (VObj 1) ''a.b''))
             [NodeSet 1 (KStr ''c'') (VNum 2), WriteField ''a'' (VObj 2)] =
           run push_only (snd (createReactive nested_declared (VObj 1) ''a.b''))
             [NodeSet 1 (KStr ''c'') (VNum 2), WriteField ''a'' (VObj 2)]"
    by simp
  note t = wrap_identity_stable [OF r w l, of "''elsewhere''"]
  from t have "fst (createReactive
         (run push_only (snd (createReactive nested_declared (VObj 1) ''a.b''))
            [NodeSet 1 (KStr ''c'') (VNum 2), WriteField ''a'' (VObj 2)])
         (VObj 1) ''elsewhere'') = fst (createReactive nested_declared (VObj 1) ''a.b'')"
    by simp
  then show ?thesis using nested_object_node by simp
qed

subsection \<open>Declaring fields\<close>

lemma createReactive_primitive:
  "\<not> is_object w \<Longrightarrow> createReactive st w ns = (UVal w, st)"
  by (cases w) (simp_all add: createReactive_def)

lemma createReactive_keeps:
  "proxy_cache st a = Some p \<Longrightarrow> proxy_cache (snd (createReactive st w ns)) a = Some p"
  by (cases w) (auto simp: createReactive_def Let_def split: option.splits)

lemma createReactive_fields:
  "fields_tab (snd (createReactive st w ns)) = fields_tab st"
  "own_props (snd (createReactive st w ns)) = own_props st"
  by (cases w; simp add: createReactive_def Let_def split: option.splits)+

lemma createReactiveFields_keeps_cache:
  "proxy_cache st a = Some p \<Longrightarrow> proxy_cache (snd (createReactiveFields st defs)) a = Some p"
proof (induction st defs rule: createReactiveFields.induct)
  case (1 st)
  then show ?case by simp
next
  case (2 st field_name initial_value rest)
  show ?case
  proof (cases "field_name \<in> own_props st")
    case True
    with "2.prems" show ?thesis by simp
  next
    case False
    obtain node st1 where cr: "createReactive st initial_value field_name = (node, st1)"
      by (cases "createReactive st initial_value field_name")
    have "proxy_cache st1 a = Some p"
      using createReactive_keeps [OF "2.prems", of initial_value field_name] cr by simp
    then have "proxy_cache (st1\<lparr>fields_tab := (fields_tab st1)(field_name \<mapsto> node),
                   own_props := insert field_name (own_props st1)\<rparr>) a = Some p" by simp
    from "2.IH" [OF False cr [symmetric] this] show ?thesis using False cr by simp
  qed
qed

lemma createReactiveFields_keeps_field:
  "createReactiveFields st defs = (Inr (), st') \<Longrightarrow> m \<in> own_props st \<Longrightarrow>
     fields_tab st' m = fields_tab st m \<and> m \<in> own_props st'"
proof (induction st defs rule: createReactiveFields.induct)
  case (1 st)
  then show ?case by simp
next
  case (2 st field_name initial_value rest)
  show ?case
  proof (cases "field_name \<in> own_props st")
    case True
    with "2.prems" show ?thesis by simp
  next
    case False
    obtain node st1 where cr: "createReactive st initial_value field_name = (node, st1)"
      by (cases "createReactive st initial_value field_name")
    let ?s = "st1\<lparr>fields_tab := (fields_tab st1)(field_name \<mapsto> node),
                   own_props := insert field_name (own_props st1)\<rparr>"
    have f1: "fields_tab st1 = fields_tab st" and o1: "own_props st1 = own_props st"
      using createReactive_fields [of st initial_value field_name] cr by simp_all
    have run: "createReactiveFields ?s rest = (Inr (), st')"
      using "2.prems"(1) False cr by simp
    have m: "m \<in> own_props ?s" using "2.prems"(2) o1 by simp
    have ne: "m \<noteq> field_name" using "2.prems"(2) False by auto
    from "2.IH" [OF False cr [symmetric] run m]
    show ?thesis using ne f1 by simp
  qed
qed

lemma createReactiveFields_append:
  "createReactiveFields st pre = (Inr (), st1) \<Longrightarrow>
     createReactiveFields st (pre @ rest) = createReactiveFields st1 rest"
proof (induction st pre rule: createReactiveFields.induct)
  case (1 st)
  then show ?case by simp
next
  case (2 st field_name initial_value more)
  show ?case
  proof (cases "field_name \<in> own_props st")
    case True
    with "2.prems" show ?thesis by simp
  next
    case False
    obtain node s1 where cr: "createReactive st initial_value field_name = (node, s1)"
      by (cases "createReactive st initial_value field_name")
    let ?s = "s1\<lparr>fields_tab := (fields_tab s1)(field_name \<mapsto> node),
                   own_props := insert field_name (own_props s1)\<rparr>"
    have run: "createReactiveFields ?s more = (Inr (), st1)"
      using "2.prems" False cr by simp
    from "2.IH" [OF False cr [symmetric] run] show ?thesis using False cr by simp
  qed
qed

lemma createReactiveFields_own:
  "createReactiveFields st pre = (Inr (), st1) \<Longrightarrow> own_props st1 = own_props st \<union> fst ` set pre"
proof (induction st pre rule: createReactiveFields.induct)
  case (1 st)
  then show ?case by simp
next
  case (2 st field_name initial_value more)
  show ?case
  proof (cases "field_name \<in> own_props st")
    case True
    with "2.prems" show ?thesis by simp
  next
    case False
    obtain node s1 where cr: "createReactive st initial_value field_name = (node, s1)"
      by (cases "createReactive st initial_value field_name")
    let ?s = "s1\<lparr>fields_tab := (fields_tab s1)(field_name \<mapsto> node),
                   own_props := insert field_name (own_props s1)\<rparr>"
    have o1: "own_props s1 = own_props st"
      using createReactive_fields [of st initial_value field_name] cr by simp
    have run: "createReactiveFields ?s more = (Inr (), st1)"
      using "2.prems" False cr by simp
    from "2.IH" [OF False cr [symmetric] run] show ?thesis using o1 by auto
  qed
qed

lemma createReactiveFields_installed:
  "createReactiveFields st pre = (Inr (), st1) \<Longrightarrow> (m, w) \<in> set pre \<Longrightarrow>
     fields_tab st1 m = Some (fst (createReactive st1 w m))"
proof (induction st pre rule: createReactiveFields.induct)
  case (1 st)
  then show ?case by simp
next
  case (2 st field_name initial_value more)
  show ?case
  proof (cases "field_name \<in> own_props st")
    case True
    with "2.prems" show ?thesis by simp
  next
    case False
    obtain node s1 where cr: "createReactive st initial_value field_name = (node, s1)"
      by (cases "createReactive st initial_value field_name")
    let ?s = "s1\<lparr>fields_tab := (fields_tab s1)(field_name \<mapsto> node),
                   own_props := insert field_name (own_props s1)\<rparr>"
    have run: "createReactiveFields ?s more = (Inr (), st1)"
      using "2.prems"(1) False cr by simp
    show ?thesis
    proof (cases "(m, w) \<in> set more")
      case True
      from "2.IH" [OF False cr [symmetric] run True] show ?thesis .
    next
      case notin: False
      with "2.prems"(2) have mw: "m = field_name" "w = initial_value" by auto
      have "field_name \<in> own_props ?s" by simp
      from createReactiveFields_keeps_field [OF run this]
      have kept: "fields_tab st1 field_name = Some node" by simp
      have "fst (createReactive st1 initial_value field_name) = node"
      proof (cases "is_object initial_value")
        case False
        then show ?thesis
          using createReactive_primitive [of initial_value] cr by simp
      next
        case True
        then obtain a where va: "initial_value = VObj a" by (cases initial_value) simp_all
        from createReactive_cached [of st a field_name node s1] cr va
        obtain p where node: "node = UNode p" and c1: "proxy_cache s1 a = Some p" by auto
        have "proxy_cache ?s a = Some p" using c1 by simp
        from createReactiveFields_keeps_cache [OF this, of more] run
        have "proxy_cache st1 a = Some p" by simp
        from createReactive_hit [OF this] va node show ?thesis by simp
      qed
      with kept mw show ?thesis by simp
    qed
  qed
qed

text \<open>C10. \<open>createReactiveFields\<close> takes the entries in order. When the entries \<open>pre\<close>
  are installed without a collision and the next name \<open>n\<close> is an own property of the
  instance (it was one before the call, or an entry of \<open>pre\<close> declared it), the call
  throws the TypeError for \<open>n\<close>; the instance is left as \<open>pre\<close> made it, so every
  field of \<open>pre\<close> is an own property whose getter returns the wrapped initial value,
  and nothing of the entries after \<open>n\<close> is installed.\<close>

theorem collision_stops_partway:
  assumes ok: "createReactiveFields st pre = (Inr (), st1)"
    and clash: "n \<in> own_props st \<or> n \<in> fst ` set pre"
  shows "createReactiveFields st (pre @ (n, v) # post) = (Inl (field_exists n), st1) \<and>
         own_props st1 = own_props st \<union> fst ` set pre \<and>
         (\<forall>m w. (m, w) \<in> set pre \<longrightarrow>
            m \<in> own_props st1 \<and> field_get st1 m = fst (createReactive st1 w m) \<and>
            fields_tab st1 m \<noteq> None)"
proof -
  have own: "own_props st1 = own_props st \<union> fst ` set pre"
    using ok by (rule createReactiveFields_own)
  have n: "n \<in> own_props st1" using clash own by auto
  have A: "createReactiveFields st (pre @ (n, v) # post) = (Inl (field_exists n), st1)"
    using createReactiveFields_append [OF ok, of "(n, v) # post"] n by simp
  have C: "\<forall>m w. (m, w) \<in> set pre \<longrightarrow>
            m \<in> own_props st1 \<and> field_get st1 m = fst (createReactive st1 w m) \<and>
            fields_tab st1 m \<noteq> None"
  proof (intro allI impI)
    fix m w
    assume mw: "(m, w) \<in> set pre"
    have f: "fields_tab st1 m = Some (fst (createReactive st1 w m))"
      using ok mw by (rule createReactiveFields_installed)
    have "m \<in> fst ` set pre" using mw by force
    then have "m \<in> own_props st1" using own by simp
    with f show "m \<in> own_props st1 \<and> field_get st1 m = fst (createReactive st1 w m) \<and>
            fields_tab st1 m \<noteq> None"
      by (simp add: field_get_def)
  qed
  show ?thesis using A own C by blast
qed

lemma second_declaration_prefix:
  "fst (createReactiveFields nested_declared [(''z'', VNum 1)]) = Inr () \<and>
   ''a'' \<in> own_props nested_declared"
  by code_simp

theorem collision_stops_partway_witness:
  "createReactiveFields nested_declared [(''z'', VNum 1), (''a'', VNum 2), (''y'', VNum 3)] =
     (Inl (field_exists ''a''), snd (createReactiveFields nested_declared [(''z'', VNum 1)])) \<and>
   ''z'' \<in> own_props (snd (createReactiveFields nested_declared [(''z'', VNum 1)])) \<and>
   field_get (snd (createReactiveFields nested_declared [(''z'', VNum 1)])) ''z'' = UVal (VNum 1) \<and>
   own_props (snd (createReactiveFields nested_declared [(''z'', VNum 1)])) =
     own_props nested_declared \<union> {''z''}"
proof -
  let ?st1 = "snd (createReactiveFields nested_declared [(''z'', VNum 1)])"
  have ok: "createReactiveFields nested_declared [(''z'', VNum 1)] = (Inr (), ?st1)"
    using second_declaration_prefix by (simp add: prod_eq_iff)
  have clash: "''a'' \<in> own_props nested_declared \<or> ''a'' \<in> fst ` set [(''z'', VNum 1)]"
    using second_declaration_prefix by blast
  note t = collision_stops_partway [OF ok clash, of "VNum 2" "[(''y'', VNum 3)]"]
  have a: "createReactiveFields nested_declared [(''z'', VNum 1), (''a'', VNum 2), (''y'', VNum 3)] =
             (Inl (field_exists ''a''), ?st1)"
    using t by simp
  have o: "own_props ?st1 = own_props nested_declared \<union> {''z''}"
    using t by simp
  have "(''z'', VNum 1) \<in> set [(''z'', VNum 1)] \<longrightarrow>
          ''z'' \<in> own_props ?st1 \<and> field_get ?st1 ''z'' = fst (createReactive ?st1 (VNum 1) ''z'')"
    using t by blast
  then have z: "''z'' \<in> own_props ?st1" and
    f: "field_get ?st1 ''z'' = fst (createReactive ?st1 (VNum 1) ''z'')" by simp_all
  have f': "field_get ?st1 ''z'' = UVal (VNum 1)"
    using f by (simp add: createReactive_def)
  show ?thesis using a z f' o by blast
qed

subsection \<open>Dispatch when no listener changes the list\<close>

text \<open>When every listener registered for the event leaves the listener table alone,
  \<open>#emit\<close> calls all of them in registration order with the payload, reports each
  exception right after the call that threw, and changes nothing else.\<close>

lemma quiet_trace: "quiet (st\<lparr>trace := t\<rparr>) f = quiet st f"
  by (cases f) (simp_all add: quiet_def)

lemma reports_trace: "reports (st\<lparr>trace := t\<rparr>) e d = reports st e d"
proof (rule ext)
  fix f
  show "reports (st\<lparr>trace := t\<rparr>) e d f = reports st e d f"
    by (cases f) (simp_all add: reports_def throws_def)
qed

lemma run_stmts_quiet:
  "set ss \<subseteq> {SThrow} \<Longrightarrow> run_stmts st ss = (ss \<noteq> [], st)"
proof (cases ss)
  case Nil
  then show ?thesis by simp
next
  case (Cons s rest)
  assume "set ss \<subseteq> {SThrow}"
  with Cons have "s = SThrow" by simp
  with Cons show ?thesis by simp
qed

lemma guarded_call_quiet:
  assumes "quiet st f"
  shows "guarded_call st e f d = st\<lparr>trace := trace st @ reports st e d f\<rparr>"
proof (cases f)
  case (Wrapper k)
  with assms show ?thesis by (simp add: quiet_def)
next
  case (Fn c)
  with assms have q: "set (bodies st c) \<subseteq> {SThrow}" by (simp add: quiet_def)
  have "call_fn st f d = (bodies st c \<noteq> [], st\<lparr>trace := trace st @ [Call (Fn c) d]\<rparr>)"
    using Fn run_stmts_quiet [OF q, of "st\<lparr>trace := trace st @ [Call (Fn c) d]\<rparr>"]
    by (simp add: call_user_def)
  then show ?thesis
    using Fn by (cases "bodies st c = []") (simp_all add: guarded_call_def reports_def throws_def)
qed

lemma dispatch_quiet:
  assumes "\<forall>f \<in> set (listeners_of st e). quiet st f"
  shows "dispatch st e d i =
           st\<lparr>trace := trace st @ concat (map (reports st e d) (drop i (listeners_of st e)))\<rparr>"
  using assms
proof (induction st e d i rule: dispatch.induct)
  case (1 st event data i)
  show ?case
  proof (cases "i < length (listeners_of st event)")
    case False
    then show ?thesis by (subst dispatch.simps) simp
  next
    case True
    let ?f = "listeners_of st event ! i"
    let ?s = "guarded_call st event ?f data"
    have qf: "quiet st ?f" using "1.prems" True by simp
    have s: "?s = st\<lparr>trace := trace st @ reports st event data ?f\<rparr>"
      using qf by (rule guarded_call_quiet)
    have ls: "listeners_of ?s event = listeners_of st event"
      unfolding s by (simp add: listeners_of_def)
    have qs: "\<forall>f \<in> set (listeners_of ?s event). quiet ?s f"
      using "1.prems" unfolding ls unfolding s by (simp add: quiet_trace)
    have rs: "reports ?s event data = reports st event data"
      unfolding s by (rule reports_trace)
    have dr: "drop i (listeners_of st event) = ?f # drop (Suc i) (listeners_of st event)"
      using True by (simp add: Cons_nth_drop_Suc)
    have "dispatch st event data i = dispatch ?s event data (Suc i)"
      using True by (subst dispatch.simps) simp
    also have "\<dots> = ?s\<lparr>trace := trace ?s @
                 concat (map (reports ?s event data) (drop (Suc i) (listeners_of ?s event)))\<rparr>"
      using "1.IH" [OF True qs] .
    also have "\<dots> = st\<lparr>trace := trace st @
                 concat (map (reports st event data) (drop i (listeners_of st event)))\<rparr>"
      unfolding rs ls dr unfolding s by simp
    finally show ?thesis .
  qed
qed

lemma emit_quiet:
  assumes "\<forall>f \<in> set (listeners_of st e). quiet st f"
  shows "emit st e d =
           st\<lparr>trace := trace st @ Emit e d # concat (map (reports st e d) (listeners_of st e))\<rparr>"
proof -
  let ?s = "st\<lparr>trace := trace st @ [Emit e d]\<rparr>"
  have q: "\<forall>f \<in> set (listeners_of ?s e). quiet ?s f"
    using assms by (simp add: listeners_of_def quiet_trace)
  have r: "reports ?s e d = reports st e d"
    by (rule reports_trace)
  show ?thesis
  proof (cases "listeners st e")
    case None
    then show ?thesis by (simp add: emit_def listeners_of_def)
  next
    case (Some l)
    then have "emit st e d = dispatch ?s e d 0" by (simp add: emit_def)
    also have "\<dots> = ?s\<lparr>trace := trace ?s @ concat (map (reports ?s e d) (drop 0 (listeners_of ?s e)))\<rparr>"
      using q by (rule dispatch_quiet)
    finally show ?thesis unfolding r by (simp add: listeners_of_def)
  qed
qed

text \<open>\<open>once\<close> registers a fresh wrapper; \<open>off\<close> with the original callback leaves
  the wrapper registered, and the closure that \<open>once\<close> returned removes it.\<close>

lemma once_registers_wrapper:
  "listeners_of (snd (once st e c)) e = listeners_of st e @ [Wrapper (next_wrapper st)] \<and>
   fst (once st e c) = (e, Wrapper (next_wrapper st)) \<and>
   wrappers (snd (once st e c)) (next_wrapper st) = Some (e, c)"
  by (simp add: once_def on_def Let_def listeners_of_def split: option.splits)

lemma off_original_keeps_wrapper:
  "Wrapper (next_wrapper st) \<in> set (listeners_of (off (snd (once st e c)) e (Fn c)) e)"
  by (simp add: once_def on_def off_def Let_def listeners_of_def split: option.splits)

lemma unsubscribe_removes_wrapper:
  assumes "Wrapper (next_wrapper st) \<notin> set (listeners_of st e)"
  shows "listeners_of (unsubscribe (snd (once st e c)) (fst (once st e c))) e = listeners_of st e"
  using assms
  by (simp add: unsubscribe_def once_def on_def off_def Let_def listeners_of_def
      remove1_append remove1_idem split: option.splits)

subsection \<open>Dispatch on a list that listeners change, and other departures\<close>

text \<open>C5. Functions 1 and 6 are registered, in this order, on \<open>a.b:c:change\<close>; function 1
  unsubscribes itself and throws. During \<open>ctx.a.b.c = 2\<close> the exception is caught and
  reported and the write returns normally, but the dispatch then ends: function 6, the
  remaining listener, is never called.\<close>

theorem throwing_listener_hides_next:
  "listeners_of throwing_first ''a.b:c:change'' = [Fn 1, Fn 6] \<and>
   fst (proxy_set throwing_first 1 (KStr ''c'') (VNum 2)) = Inr True \<and>
   calls (trace (snd (proxy_set throwing_first 1 (KStr ''c'') (VNum 2)))) = [Fn 1] \<and>
   ConsoleError ''a.b:c:change'' \<in> set (trace (snd (proxy_set throwing_first 1 (KStr ''c'') (VNum 2))))"
  by code_simp

text \<open>C6. At the start of the dispatch of \<open>a.b:c:change\<close> the list holds the wrapper of
  a \<open>once\<close> registration and then function 6. The wrapper runs function 5 and removes
  itself; the emission calls nothing else, so function 6, which was in the list when the
  dispatch began, is skipped.\<close>

theorem self_removal_skips_next:
  "listeners_of once_then_on ''a.b:c:change'' = [Wrapper 0, Fn 6] \<and>
   calls (trace (snd (proxy_set once_then_on 1 (KStr ''c'') (VNum 2)))) = [Wrapper 0, Fn 5] \<and>
   listeners_of (snd (proxy_set once_then_on 1 (KStr ''c'') (VNum 2))) ''a.b:c:change'' = [Fn 6]"
  by code_simp

text \<open>C7. A callback that throws, registered with \<open>once\<close>, runs at each of two emissions
  of its event, and its wrapper is still registered afterwards.\<close>

theorem throwing_once_runs_again:
  "calls (trace once_throwing_twice) = [Wrapper 0, Fn 3, Wrapper 0, Fn 3] \<and>
   listeners_of once_throwing_twice ''a.b:c:change'' = [Wrapper 0]"
  by code_simp

text \<open>C8. Node 1 wraps the object that \<open>a.b\<close> held, with namespace \<open>a.b\<close>. The
  assignment \<open>ctx.a.b = {c: 5}\<close> warns and emits \<open>a:b:change\<close> and \<open>a:change\<close>; the new
  object is then wrapped as node 2, again with namespace \<open>a.b\<close>, and function 7 subscribes
  to \<open>a.b:c:change\<close>. A write through the old node 1 calls function 7.\<close>

theorem old_node_still_fires:
  "trace reassigned =
     [Warn False ''object'' ''b'',
      Emit ''a:b:change'' (PChange ''b'' (UVal (VObj 1)) (UVal (VObj 2)) 1000),
      Emit ''a:change'' (PChange ''b'' (UVal (VObj 1)) (UVal (VObj 2)) 1001)] \<and>
   fst (proxy_get reassigned 0 (KStr ''b'')) = Inr (UNode 2) \<and>
   proxies listening_new 2 = Some (2, ''a.b'') \<and>
   proxies listening_new 1 = Some (1, ''a.b'') \<and>
   listeners_of listening_new ''a.b:c:change'' = [Fn 7] \<and>
   calls (trace written_through_old) = [Fn 7]"
  by code_simp

text \<open>C9. An assignment to a symbol key through a node performs the assignment on the raw
  target and then throws a TypeError, when the name of the first event is built. A read of
  a symbol key at which the raw target holds a primitive passes through without an event,
  and so does a deletion.\<close>

theorem symbol_write_throws:
  "fst (proxy_set nested_traversed 1 (KSym 0) (VNum 9)) =
     Inl (TypeError ''Cannot convert a Symbol value to a string'') \<and>
   raw_get (heap (snd (proxy_set nested_traversed 1 (KSym 0) (VNum 9))) 1) (KSym 0) = VNum 9 \<and>
   events_since nested_traversed (snd (proxy_set nested_traversed 1 (KSym 0) (VNum 9))) = [] \<and>
   fst (proxy_get nested_traversed 1 (KSym 0)) = Inr (UVal VUndef) \<and>
   events_since nested_traversed (snd (proxy_get nested_traversed 1 (KSym 0))) = [] \<and>
   fst (proxy_delete nested_traversed 1 (KStr ''c'')) = Inr True \<and>
   raw_get (heap (snd (proxy_delete nested_traversed 1 (KStr ''c''))) 1) (KStr ''c'') = VUndef \<and>
   events_since nested_traversed (snd (proxy_delete nested_traversed 1 (KStr ''c''))) = []"
  by code_simp

end
